theory Spec2Isabelle
  imports Complex_Main "HOL-Library.Multiset"
begin

section \<open>Piece catalogue (tetromino.ts)\<close>

text \<open>
  The seven piece types \<^verbatim>\<open>'I' | 'O' | 'T' | 'S' | 'Z' | 'J' | 'L'\<close>. The constructors
  carry a prefix because single capital letters are taken by HOL syntax.
\<close>

datatype TetrominoType = PieceI | PieceO | PieceT | PieceS | PieceZ | PieceJ | PieceL

type_synonym shape = "int list list"

text \<open>\<^verbatim>\<open>TETROMINOES[type].shapes\<close>: four matrices per type, \<open>1\<close> a filled cell.\<close>

fun shapes :: "TetrominoType \<Rightarrow> shape list" where
  "shapes PieceI =
     [[[0, 0, 0, 0], [1, 1, 1, 1], [0, 0, 0, 0], [0, 0, 0, 0]],
      [[0, 0, 1, 0], [0, 0, 1, 0], [0, 0, 1, 0], [0, 0, 1, 0]],
      [[0, 0, 0, 0], [0, 0, 0, 0], [1, 1, 1, 1], [0, 0, 0, 0]],
      [[0, 1, 0, 0], [0, 1, 0, 0], [0, 1, 0, 0], [0, 1, 0, 0]]]"
| "shapes PieceO =
     [[[1, 1], [1, 1]],
      [[1, 1], [1, 1]],
      [[1, 1], [1, 1]],
      [[1, 1], [1, 1]]]"
| "shapes PieceT =
     [[[0, 1, 0], [1, 1, 1], [0, 0, 0]],
      [[0, 1, 0], [0, 1, 1], [0, 1, 0]],
      [[0, 0, 0], [1, 1, 1], [0, 1, 0]],
      [[0, 1, 0], [1, 1, 0], [0, 1, 0]]]"
| "shapes PieceS =
     [[[0, 1, 1], [1, 1, 0], [0, 0, 0]],
      [[0, 1, 0], [0, 1, 1], [0, 0, 1]],
      [[0, 0, 0], [0, 1, 1], [1, 1, 0]],
      [[1, 0, 0], [1, 1, 0], [0, 1, 0]]]"
| "shapes PieceZ =
     [[[1, 1, 0], [0, 1, 1], [0, 0, 0]],
      [[0, 0, 1], [0, 1, 1], [0, 1, 0]],
      [[0, 0, 0], [1, 1, 0], [0, 1, 1]],
      [[0, 1, 0], [1, 1, 0], [1, 0, 0]]]"
| "shapes PieceJ =
     [[[1, 0, 0], [1, 1, 1], [0, 0, 0]],
      [[0, 1, 1], [0, 1, 0], [0, 1, 0]],
      [[0, 0, 0], [1, 1, 1], [0, 0, 1]],
      [[0, 1, 0], [0, 1, 0], [1, 1, 0]]]"
| "shapes PieceL =
     [[[0, 0, 1], [1, 1, 1], [0, 0, 0]],
      [[0, 1, 0], [0, 1, 0], [0, 1, 1]],
      [[0, 0, 0], [1, 1, 1], [1, 0, 0]],
      [[1, 1, 0], [0, 1, 0], [0, 1, 0]]]"

text \<open>\<^verbatim>\<open>TETROMINOES[type].color\<close>, the tag a locked cell holds.\<close>

fun color :: "TetrominoType \<Rightarrow> string" where
  "color PieceI = ''#00E5FF''"
| "color PieceO = ''#FFEB3B''"
| "color PieceT = ''#BA68C8''"
| "color PieceS = ''#66BB6A''"
| "color PieceZ = ''#FF5252''"
| "color PieceJ = ''#42A5F5''"
| "color PieceL = ''#FFA726''"

text \<open>
  JavaScript's \<^verbatim>\<open>%\<close> on integers: the remainder of the truncating division, with the
  sign of the dividend (\<^verbatim>\<open>-1 % 4\<close> is \<^verbatim>\<open>-1\<close>).
\<close>

definition jsRem :: "int \<Rightarrow> int \<Rightarrow> int" where
  "jsRem a b = sgn a * (\<bar>a\<bar> mod \<bar>b\<bar>)"

text \<open>
  Reading \<^verbatim>\<open>xs[i]\<close>: \<open>None\<close> stands for \<^verbatim>\<open>undefined\<close>, what JavaScript answers for an
  index outside the array.
\<close>

definition arrayGet :: "'a list \<Rightarrow> int \<Rightarrow> 'a option" where
  "arrayGet xs i = (if 0 \<le> i \<and> i < int (length xs) then Some (xs ! nat i) else None)"

text \<open>\<^verbatim>\<open>getRotatedShape(type, rotation) = TETROMINOES[type].shapes[rotation % 4]\<close>.\<close>

definition getRotatedShape :: "TetrominoType \<Rightarrow> int \<Rightarrow> shape option" where
  "getRotatedShape t rotation = arrayGet (shapes t) (jsRem rotation 4)"

text \<open>
  The SRS kick tables. A key \<^verbatim>\<open>`${from}>${to}`\<close> is kept as the pair \<open>(from, to)\<close> it is
  printed from; the offsets are \<open>(kickX, kickY)\<close>.
\<close>

type_synonym kick = "int \<times> int"

definition WALL_KICKS_JLSTZ :: "((int \<times> int) \<times> kick list) list" where
  "WALL_KICKS_JLSTZ =
     [((0, 1), [(0, 0), (-1, 0), (-1, 1), (0, -2), (-1, -2)]),
      ((1, 0), [(0, 0), (1, 0), (1, -1), (0, 2), (1, 2)]),
      ((1, 2), [(0, 0), (1, 0), (1, -1), (0, 2), (1, 2)]),
      ((2, 1), [(0, 0), (-1, 0), (-1, 1), (0, -2), (-1, -2)]),
      ((2, 3), [(0, 0), (1, 0), (1, 1), (0, -2), (1, -2)]),
      ((3, 2), [(0, 0), (-1, 0), (-1, -1), (0, 2), (-1, 2)]),
      ((3, 0), [(0, 0), (-1, 0), (-1, -1), (0, 2), (-1, 2)]),
      ((0, 3), [(0, 0), (1, 0), (1, 1), (0, -2), (1, -2)])]"

definition WALL_KICKS_I :: "((int \<times> int) \<times> kick list) list" where
  "WALL_KICKS_I =
     [((0, 1), [(0, 0), (-2, 0), (1, 0), (-2, -1), (1, 2)]),
      ((1, 0), [(0, 0), (2, 0), (-1, 0), (2, 1), (-1, -2)]),
      ((1, 2), [(0, 0), (-1, 0), (2, 0), (-1, 2), (2, -1)]),
      ((2, 1), [(0, 0), (1, 0), (-2, 0), (1, -2), (-2, 1)]),
      ((2, 3), [(0, 0), (2, 0), (-1, 0), (2, 1), (-1, -2)]),
      ((3, 2), [(0, 0), (-2, 0), (1, 0), (-2, -1), (1, 2)]),
      ((3, 0), [(0, 0), (1, 0), (-2, 0), (1, -2), (-2, 1)]),
      ((0, 3), [(0, 0), (-1, 0), (2, 0), (-1, 2), (2, -1)])]"

text \<open>
  \<^verbatim>\<open>getWallKicks\<close>: \<^verbatim>\<open>TABLE[key] || [[0, 0]]\<close>. Every array is truthy, so the fallback is
  taken exactly when the key is absent.
\<close>

definition getWallKicks :: "TetrominoType \<Rightarrow> int \<Rightarrow> int \<Rightarrow> kick list" where
  "getWallKicks t fromRotation toRotation =
     (let key = (fromRotation, toRotation) in
      if t = PieceI then (case map_of WALL_KICKS_I key of Some ks \<Rightarrow> ks | None \<Rightarrow> [(0, 0)])
      else if t = PieceO then [(0, 0)]
      else (case map_of WALL_KICKS_JLSTZ key of Some ks \<Rightarrow> ks | None \<Rightarrow> [(0, 0)]))"

section \<open>Board and collision test\<close>

definition COLS :: nat where "COLS = 10"
definition ROWS :: nat where "ROWS = 20"

text \<open>A cell is \<^verbatim>\<open>string | null\<close>: \<open>None\<close> is \<^verbatim>\<open>null\<close>, \<open>Some c\<close> a colour tag.\<close>

type_synonym cell = "string option"
type_synonym board = "cell list list"

text \<open>
  What can stop a call. \<open>TypeError\<close> is JavaScript's own: a property read on
  \<^verbatim>\<open>undefined\<close> (a shape that does not exist, a row index outside the board).
  \<open>OutOfBounds\<close> marks a column index outside its row, where JavaScript would read
  \<^verbatim>\<open>undefined\<close> or grow the row with holes; no value of type \<open>cell\<close> stands for
  either, so the model stops there instead of going on.
\<close>

datatype error = TypeError | OutOfBounds

text \<open>Truthiness of a cell, as \<^verbatim>\<open>if (cell)\<close> tests it: \<^verbatim>\<open>null\<close> and \<^verbatim>\<open>''\<close> are falsy.\<close>

definition truthy :: "cell \<Rightarrow> bool" where
  "truthy c = (case c of None \<Rightarrow> False | Some s \<Rightarrow> s \<noteq> [])"

text \<open>\<^verbatim>\<open>this.board[boardY][boardX]\<close>.\<close>

definition cellAt :: "board \<Rightarrow> int \<Rightarrow> int \<Rightarrow> error + cell" where
  "cellAt b boardY boardX =
     (case arrayGet b boardY of
        None \<Rightarrow> Inl TypeError
      | Some r \<Rightarrow> (case arrayGet r boardX of None \<Rightarrow> Inl OutOfBounds | Some c \<Rightarrow> Inr c))"

text \<open>
  \<^verbatim>\<open>isValidPosition\<close>. The inner loop runs over the cells of one shape row, \<open>col\<close>
  counting them; \<open>Inr False\<close> is the early \<^verbatim>\<open>return false\<close>, \<open>Inr True\<close> the end of the
  loop.
\<close>

fun validCols :: "board \<Rightarrow> int \<Rightarrow> int \<Rightarrow> int \<Rightarrow> int list \<Rightarrow> error + bool" where
  "validCols b x boardY col [] = Inr True"
| "validCols b x boardY col (c # cs) =
     (if c \<noteq> 0 then
        (let boardX = x + col in
         if boardX < 0 \<or> boardX \<ge> int COLS \<or> boardY \<ge> int ROWS then Inr False
         else if boardY \<ge> 0 then
           (case cellAt b boardY boardX of
              Inl e \<Rightarrow> Inl e
            | Inr v \<Rightarrow> if truthy v then Inr False else validCols b x boardY (col + 1) cs)
         else validCols b x boardY (col + 1) cs)
      else validCols b x boardY (col + 1) cs)"

fun validRows :: "board \<Rightarrow> int \<Rightarrow> int \<Rightarrow> int \<Rightarrow> shape \<Rightarrow> error + bool" where
  "validRows b x y row [] = Inr True"
| "validRows b x y row (r # rs) =
     (case validCols b x (y + row) 0 r of
        Inl e \<Rightarrow> Inl e
      | Inr ok \<Rightarrow> if ok then validRows b x y (row + 1) rs else Inr False)"

definition isValidPosition :: "board \<Rightarrow> TetrominoType \<Rightarrow> int \<Rightarrow> int \<Rightarrow> int \<Rightarrow> error + bool" where
  "isValidPosition b t x y rotation =
     (case getRotatedShape t rotation of
        None \<Rightarrow> Inl TypeError
      | Some sh \<Rightarrow> validRows b x y 0 sh)"

text \<open>\<^verbatim>\<open>createEmptyBoard\<close>: \<^verbatim>\<open>Array.from({ length: ROWS }, () => Array(COLS).fill(null))\<close>.\<close>

definition createEmptyBoard :: board where
  "createEmptyBoard = replicate ROWS (replicate COLS None)"

text \<open>The board invariant: \<open>ROWS\<close> rows of \<open>COLS\<close> cells.\<close>

definition board_ok :: "board \<Rightarrow> bool" where
  "board_ok b = (length b = ROWS \<and> list_all (\<lambda>r. length r = COLS) b)"

text \<open>
  No cell holds the empty string, the one value that is not \<^verbatim>\<open>null\<close> and still falsy.
  On such a board a cell is truthy exactly when it is not \<^verbatim>\<open>null\<close>.
\<close>

definition tags_ok :: "board \<Rightarrow> bool" where
  "tags_ok b = (\<forall>r \<in> set b. \<forall>c \<in> set r. c \<noteq> Some [])"

section \<open>The 7-bag (tetromino.ts)\<close>

text \<open>
  \<^verbatim>\<open>Math.random()\<close> is modelled by the sequence of values it returns to the calls made by
  \<^verbatim>\<open>shuffleArray\<close>, in order; a call takes the head and leaves the tail. Its contract
  is a value in \<open>[0, 1)\<close>. The values are taken as exact reals, so that
  \<^verbatim>\<open>Math.floor(Math.random() * (i + 1))\<close> is an index in \<open>0..i\<close>.
\<close>

type_synonym random = "nat \<Rightarrow> real"

definition random_ok :: "random \<Rightarrow> bool" where
  "random_ok rs = (\<forall>n. 0 \<le> rs n \<and> rs n < 1)"

definition randomTail :: "random \<Rightarrow> random" where
  "randomTail rs = (\<lambda>n. rs (Suc n))"

text \<open>
  \<^verbatim>\<open>shuffleArray\<close>: the loop \<^verbatim>\<open>for (i = length - 1; i > 0; i--)\<close> with the swap
  \<^verbatim>\<open>[a[i], a[j]] = [a[j], a[i]]\<close>, whose right-hand side is read before either write.
  Under the contract of the random source \<open>j \<le> i\<close>, so every index used lies inside
  the array.
\<close>

fun shuffleLoop :: "nat \<Rightarrow> 'a list \<Rightarrow> random \<Rightarrow> 'a list \<times> random" where
  "shuffleLoop 0 shuffled rs = (shuffled, rs)"
| "shuffleLoop (Suc k) shuffled rs =
     (let i = Suc k;
          j = nat \<lfloor>rs 0 * real (i + 1)\<rfloor>
      in shuffleLoop k (shuffled[i := shuffled ! j, j := shuffled ! i]) (randomTail rs))"

definition shuffleArray :: "'a list \<Rightarrow> random \<Rightarrow> 'a list \<times> random" where
  "shuffleArray array rs = shuffleLoop (length array - 1) array rs"

record TetrominoBag =
  bag :: "TetrominoType list"
  nextBag :: "TetrominoType list"

definition pieces :: "TetrominoType list" where
  "pieces = [PieceI, PieceO, PieceT, PieceS, PieceZ, PieceJ, PieceL]"

definition fillBag :: "TetrominoBag \<Rightarrow> random \<Rightarrow> TetrominoBag \<times> random" where
  "fillBag b rs = (let (shuffled, rs') = shuffleArray pieces rs in (b\<lparr>bag := shuffled\<rparr>, rs'))"

definition fillNextBag :: "TetrominoBag \<Rightarrow> random \<Rightarrow> TetrominoBag \<times> random" where
  "fillNextBag b rs = (let (shuffled, rs') = shuffleArray pieces rs in (b\<lparr>nextBag := shuffled\<rparr>, rs'))"

text \<open>The constructor and \<^verbatim>\<open>reset()\<close> both run \<^verbatim>\<open>fillBag(); fillNextBag()\<close>.\<close>

definition bagReset :: "TetrominoBag \<Rightarrow> random \<Rightarrow> TetrominoBag \<times> random" where
  "bagReset b rs = (let (b1, rs1) = fillBag b rs in fillNextBag b1 rs1)"

definition newBag :: "random \<Rightarrow> TetrominoBag \<times> random" where
  "newBag rs = bagReset \<lparr>bag = [], nextBag = []\<rparr> rs"

text \<open>\<^verbatim>\<open>Array.prototype.pop\<close>: the last element, \<^verbatim>\<open>undefined\<close> on an empty array.\<close>

definition pop :: "'a list \<Rightarrow> 'a option \<times> 'a list" where
  "pop xs = (if xs = [] then (None, []) else (Some (last xs), butlast xs))"

text \<open>\<^verbatim>\<open>next()\<close> (the name is an Isar keyword, hence the prefix).\<close>

definition bagNext :: "TetrominoBag \<Rightarrow> random \<Rightarrow> TetrominoType option \<times> TetrominoBag \<times> random" where
  "bagNext b rs =
     (let (b1, rs1) = (if length (bag b) = 0 then fillNextBag (b\<lparr>bag := nextBag b\<rparr>) rs else (b, rs));
          (v, rest) = pop (bag b1)
      in (v, b1\<lparr>bag := rest\<rparr>, rs1))"

text \<open>\<^verbatim>\<open>peek()\<close> reads and writes nothing; it returns the bag as it found it.\<close>

definition bagPeek :: "TetrominoBag \<Rightarrow> TetrominoType option \<times> TetrominoBag" where
  "bagPeek b =
     (if length (bag b) = 0 then (arrayGet (nextBag b) (int (length (nextBag b)) - 1), b)
      else (arrayGet (bag b) (int (length (bag b)) - 1), b))"

text \<open>\<open>n\<close> consecutive calls of \<^verbatim>\<open>next()\<close>, with the values they return in call order.\<close>

fun draws :: "nat \<Rightarrow> TetrominoBag \<Rightarrow> random \<Rightarrow> TetrominoType option list \<times> TetrominoBag \<times> random" where
  "draws 0 b rs = ([], b, rs)"
| "draws (Suc n) b rs =
     (let (v, b1, rs1) = bagNext b rs;
          (vs, b2, rs2) = draws n b1 rs1
      in (v # vs, b2, rs2))"

text \<open>
  The bag states the program can be in: what the constructor or \<^verbatim>\<open>reset()\<close> leaves
  (the constructor is \<open>bagReset\<close> on empty queues), and what \<^verbatim>\<open>next()\<close> leaves when
  called in such a state.
\<close>

inductive bagReachable :: "TetrominoBag \<Rightarrow> bool" where
  afterReset: "random_ok rs \<Longrightarrow> bagReachable (fst (bagReset b rs))"
| afterNext: "bagReachable b \<Longrightarrow> random_ok rs \<Longrightarrow> bagReachable (fst (snd (bagNext b rs)))"

section \<open>The game engine\<close>

definition SCORE_TABLE :: "(nat \<times> int) list" where
  "SCORE_TABLE = [(1, 100), (2, 300), (3, 500), (4, 800)]"

definition BASE_SPEED :: int where "BASE_SPEED = 1000"
definition SPEED_DECREASE_PER_LEVEL :: int where "SPEED_DECREASE_PER_LEVEL = 75"
definition MIN_SPEED :: int where "MIN_SPEED = 100"

text \<open>\<^verbatim>\<open>ActivePiece\<close>; the fields \<^verbatim>\<open>type\<close>, \<^verbatim>\<open>x\<close>, \<^verbatim>\<open>y\<close> carry a prefix.\<close>

record ActivePiece =
  ptype :: TetrominoType
  px :: int
  py :: int
  rotation :: int

datatype GameState = Start | Playing | Paused | GameOver

text \<open>
  The fields of \<^verbatim>\<open>TetrisGame\<close> the rules read or write. Canvas, particles, sound,
  settings, the stored high score and the drop timer are presentation and left out.
  \<open>nextPiece\<close> is \<open>None\<close> when \<^verbatim>\<open>bag.next()\<close> returned \<^verbatim>\<open>undefined\<close>; \<open>rnd\<close> is the
  future of \<^verbatim>\<open>Math.random()\<close>.
\<close>

record TetrisGame =
  board :: board
  currentPiece :: "ActivePiece option"
  gameBag :: TetrominoBag
  nextPiece :: "TetrominoType option"
  score :: int
  level :: int
  lines :: int
  state :: GameState
  dropInterval :: int
  rnd :: random

text \<open>\<^verbatim>\<open>movePiece(dx, dy)\<close>, returning the boolean and the game after the call.\<close>

definition movePiece :: "TetrisGame \<Rightarrow> int \<Rightarrow> int \<Rightarrow> error + (bool \<times> TetrisGame)" where
  "movePiece g dx dy =
     (case currentPiece g of
        None \<Rightarrow> Inr (False, g)
      | Some p \<Rightarrow>
          (let newX = px p + dx;
               newY = py p + dy
           in case isValidPosition (board g) (ptype p) newX newY (rotation p) of
                Inl e \<Rightarrow> Inl e
              | Inr ok \<Rightarrow>
                  if ok then Inr (True, g\<lparr>currentPiece := Some (p\<lparr>px := newX, py := newY\<rparr>)\<rparr>)
                  else Inr (False, g)))"

text \<open>\<^verbatim>\<open>rotatePiece()\<close>: the loop over the kicks, leaving at the first valid one.\<close>

fun tryKicks :: "TetrisGame \<Rightarrow> ActivePiece \<Rightarrow> int \<Rightarrow> kick list \<Rightarrow> error + TetrisGame" where
  "tryKicks g p toRotation [] = Inr g"
| "tryKicks g p toRotation ((kickX, kickY) # kicks) =
     (let newX = px p + kickX;
          newY = py p - kickY
      in case isValidPosition (board g) (ptype p) newX newY toRotation of
           Inl e \<Rightarrow> Inl e
         | Inr ok \<Rightarrow>
             if ok then Inr (g\<lparr>currentPiece := Some (p\<lparr>px := newX, py := newY, rotation := toRotation\<rparr>)\<rparr>)
             else tryKicks g p toRotation kicks)"

definition rotatePiece :: "TetrisGame \<Rightarrow> error + TetrisGame" where
  "rotatePiece g =
     (case currentPiece g of
        None \<Rightarrow> Inr g
      | Some p \<Rightarrow>
          (let fromRotation = rotation p;
               toRotation = jsRem (fromRotation + 1) 4;
               kicks = getWallKicks (ptype p) fromRotation toRotation
           in tryKicks g p toRotation kicks))"

definition softDrop :: "TetrisGame \<Rightarrow> error + TetrisGame" where
  "softDrop g =
     (case movePiece g 0 1 of
        Inl e \<Rightarrow> Inl e
      | Inr (moved, g1) \<Rightarrow> if moved then Inr (g1\<lparr>score := score g1 + 1\<rparr>) else Inr g1)"

text \<open>
  \<^verbatim>\<open>this.board[boardY][boardX] = color\<close>, the write of \<^verbatim>\<open>lockPiece\<close>.
\<close>

definition setCell :: "board \<Rightarrow> int \<Rightarrow> int \<Rightarrow> cell \<Rightarrow> error + board" where
  "setCell b boardY boardX v =
     (case arrayGet b boardY of
        None \<Rightarrow> Inl TypeError
      | Some r \<Rightarrow>
          (case arrayGet r boardX of
             None \<Rightarrow> Inl OutOfBounds
           | Some _ \<Rightarrow> Inr (b[nat boardY := r[nat boardX := v]])))"

fun lockCols :: "board \<Rightarrow> ActivePiece \<Rightarrow> string \<Rightarrow> int \<Rightarrow> int \<Rightarrow> int list \<Rightarrow> error + board" where
  "lockCols b p c row col [] = Inr b"
| "lockCols b p c row col (v # vs) =
     (if v \<noteq> 0 then
        (let boardY = py p + row;
             boardX = px p + col
         in if boardY \<ge> 0 \<and> boardY < int ROWS \<and> boardX \<ge> 0 \<and> boardX < int COLS then
              (case setCell b boardY boardX (Some c) of
                 Inl e \<Rightarrow> Inl e
               | Inr b1 \<Rightarrow> lockCols b1 p c row (col + 1) vs)
            else lockCols b p c row (col + 1) vs)
      else lockCols b p c row (col + 1) vs)"

fun lockRows :: "board \<Rightarrow> ActivePiece \<Rightarrow> string \<Rightarrow> int \<Rightarrow> shape \<Rightarrow> error + board" where
  "lockRows b p c row [] = Inr b"
| "lockRows b p c row (r # rs) =
     (case lockCols b p c row 0 r of
        Inl e \<Rightarrow> Inl e
      | Inr b1 \<Rightarrow> lockRows b1 p c (row + 1) rs)"

text \<open>
  \<^verbatim>\<open>clearLines\<close>. \<open>findLines b n\<close> is the scan \<^verbatim>\<open>for (row = n - 1; row >= 0; row--)\<close>
  pushing every row whose cells are all \<^verbatim>\<open>!== null\<close>: the indices come out in
  descending order. \<open>removeLines\<close> is the loop of \<^verbatim>\<open>splice(row, 1)\<close> and
  \<^verbatim>\<open>unshift(Array(COLS).fill(null))\<close> over them.
\<close>

definition fullRow :: "cell list \<Rightarrow> bool" where
  "fullRow r = list_all (\<lambda>c. c \<noteq> None) r"

fun findLines :: "board \<Rightarrow> nat \<Rightarrow> error + nat list" where
  "findLines b 0 = Inr []"
| "findLines b (Suc row) =
     (case arrayGet b (int row) of
        None \<Rightarrow> Inl TypeError
      | Some r \<Rightarrow>
          (case findLines b row of
             Inl e \<Rightarrow> Inl e
           | Inr linesToClear \<Rightarrow> Inr (if fullRow r then row # linesToClear else linesToClear)))"

definition splice1 :: "'a list \<Rightarrow> nat \<Rightarrow> 'a list" where
  "splice1 xs row = take row xs @ drop (Suc row) xs"

fun removeLines :: "board \<Rightarrow> nat list \<Rightarrow> board" where
  "removeLines b [] = b"
| "removeLines b (row # linesToClear) =
     removeLines (replicate COLS None # splice1 b row) linesToClear"

definition lineScoreOf :: "nat \<Rightarrow> int" where
  "lineScoreOf n = (case map_of SCORE_TABLE n of Some v \<Rightarrow> (if v = 0 then 0 else v) | None \<Rightarrow> 0)"

definition clearLines :: "TetrisGame \<Rightarrow> error + TetrisGame" where
  "clearLines g =
     (case findLines (board g) ROWS of
        Inl e \<Rightarrow> Inl e
      | Inr linesToClear \<Rightarrow>
          if length linesToClear = 0 then Inr g
          else
            (let lineScore = lineScoreOf (length linesToClear);
                 g1 = g\<lparr>score := score g + lineScore * level g,
                        lines := lines g + int (length linesToClear)\<rparr>;
                 g2 = g1\<lparr>board := removeLines (board g1) linesToClear\<rparr>;
                 newLevel = lines g2 div 10 + 1
             in Inr (if newLevel > level g2 then
                       g2\<lparr>level := newLevel,
                          dropInterval :=
                            max MIN_SPEED (BASE_SPEED - (newLevel - 1) * SPEED_DECREASE_PER_LEVEL)\<rparr>
                     else g2)))"

text \<open>\<^verbatim>\<open>gameOver\<close>: the state change; storing the high score is left out.\<close>

definition gameOver :: "TetrisGame \<Rightarrow> TetrisGame" where
  "gameOver g = g\<lparr>state := GameOver\<rparr>"

text \<open>
  \<^verbatim>\<open>spawnPiece\<close>. With \<^verbatim>\<open>nextPiece\<close> undefined, \<^verbatim>\<open>TETROMINOES[type].shapes\<close> inside
  \<^verbatim>\<open>isValidPosition\<close> throws.
\<close>

definition spawnPiece :: "TetrisGame \<Rightarrow> error + TetrisGame" where
  "spawnPiece g =
     (let type = nextPiece g;
          startX = (int COLS - 4) div 2;
          startY = 0;
          (n, b1, rs1) = bagNext (gameBag g) (rnd g);
          g1 = g\<lparr>nextPiece := n, gameBag := b1, rnd := rs1\<rparr>
      in case type of
           None \<Rightarrow> Inl TypeError
         | Some t \<Rightarrow>
             (case isValidPosition (board g1) t startX startY 0 of
                Inl e \<Rightarrow> Inl e
              | Inr ok \<Rightarrow>
                  if \<not> ok then Inr (gameOver (g1\<lparr>currentPiece := None\<rparr>))
                  else Inr (g1\<lparr>currentPiece :=
                              Some \<lparr>ptype = t, px = startX, py = startY, rotation = 0\<rparr>\<rparr>)))"

definition lockPiece :: "TetrisGame \<Rightarrow> error + TetrisGame" where
  "lockPiece g =
     (case currentPiece g of
        None \<Rightarrow> Inr g
      | Some p \<Rightarrow>
          (case getRotatedShape (ptype p) (rotation p) of
             None \<Rightarrow> Inl TypeError
           | Some sh \<Rightarrow>
               (case lockRows (board g) p (color (ptype p)) 0 sh of
                  Inl e \<Rightarrow> Inl e
                | Inr b1 \<Rightarrow>
                    (case clearLines (g\<lparr>board := b1\<rparr>) of
                       Inl e \<Rightarrow> Inl e
                     | Inr g1 \<Rightarrow> spawnPiece g1))))"

text \<open>
  \<^verbatim>\<open>hardDrop\<close> runs \<^verbatim>\<open>while (this.movePiece(0, 1)) dropDistance++\<close>. The loop ends
  because every shape has a filled cell, which a valid position keeps above the floor.
\<close>

lemma validCols_True_floor:
  "validCols b x boardY col cs = Inr True \<Longrightarrow> list_ex (\<lambda>v. v \<noteq> 0) cs \<Longrightarrow> boardY < int ROWS"
proof (induction cs arbitrary: col)
  case Nil
  then show ?case by simp
next
  case (Cons c cs)
  show ?case
  proof (cases "c = 0")
    case True
    with Cons.prems have "validCols b x boardY (col + 1) cs = Inr True" "list_ex (\<lambda>v. v \<noteq> 0) cs"
      by simp_all
    then show ?thesis by (rule Cons.IH)
  next
    case False
    with Cons.prems(1) show ?thesis
      by (cases "boardY < int ROWS") (simp_all add: Let_def)
  qed
qed

lemma validRows_True_floor:
  "validRows b x y row sh = Inr True \<Longrightarrow> 0 \<le> row \<Longrightarrow>
     list_ex (list_ex (\<lambda>v. v \<noteq> 0)) sh \<Longrightarrow> y < int ROWS"
proof (induction sh arbitrary: row)
  case Nil
  then show ?case by simp
next
  case (Cons r rs)
  from Cons.prems(1) have cols: "validCols b x (y + row) 0 r = Inr True"
    and rest: "validRows b x y (row + 1) rs = Inr True"
    by (auto split: sum.splits if_splits)
  show ?case
  proof (cases "list_ex (\<lambda>v. v \<noteq> 0) r")
    case True
    with cols have "y + row < int ROWS" by (rule validCols_True_floor)
    with Cons.prems(2) show ?thesis by simp
  next
    case False
    with Cons.prems(3) have "list_ex (list_ex (\<lambda>v. v \<noteq> 0)) rs" by simp
    with rest Cons.prems(2) show ?thesis by (intro Cons.IH [of "row + 1"]) simp_all
  qed
qed

lemma shapes_filled: "sh \<in> set (shapes t) \<Longrightarrow> list_ex (list_ex (\<lambda>v. v \<noteq> 0)) sh"
  by (cases t) auto

lemma getRotatedShape_in_shapes: "getRotatedShape t r = Some sh \<Longrightarrow> sh \<in> set (shapes t)"
  by (auto simp: getRotatedShape_def arrayGet_def split: if_splits)

lemma isValidPosition_True_floor:
  assumes "isValidPosition b t x y r = Inr True"
  shows "y < int ROWS"
proof -
  from assms obtain sh where sh: "getRotatedShape t r = Some sh" and v: "validRows b x y 0 sh = Inr True"
    by (auto simp: isValidPosition_def split: option.splits)
  from sh have "list_ex (list_ex (\<lambda>v. v \<noteq> 0)) sh"
    by (intro shapes_filled getRotatedShape_in_shapes)
  with v show ?thesis by (intro validRows_True_floor [of b x y 0 sh]) simp_all
qed

lemma movePiece_True:
  assumes "movePiece g dx dy = Inr r" and "fst r"
  shows "\<exists>p. currentPiece g = Some p \<and>
              isValidPosition (board g) (ptype p) (px p + dx) (py p + dy) (rotation p) = Inr True \<and>
              snd r = g\<lparr>currentPiece := Some (p\<lparr>px := px p + dx, py := py p + dy\<rparr>)\<rparr>"
  using assms
  by (auto simp: movePiece_def Let_def split: option.splits sum.splits if_splits)

function dropLoop :: "TetrisGame \<Rightarrow> int \<Rightarrow> error + (int \<times> TetrisGame)" where
  "dropLoop g dropDistance =
     (case movePiece g 0 1 of
        Inl e \<Rightarrow> Inl e
      | Inr r \<Rightarrow> if fst r then dropLoop (snd r) (dropDistance + 1) else Inr (dropDistance, snd r))"
  by pat_completeness auto
termination
proof (relation "measure (\<lambda>(g, d). case currentPiece g of None \<Rightarrow> 0 | Some p \<Rightarrow> nat (int ROWS - py p))")
  show "wf (measure (\<lambda>(g, d). case currentPiece g of None \<Rightarrow> 0 | Some p \<Rightarrow> nat (int ROWS - py p)))"
    by simp
next
  fix g :: TetrisGame and dropDistance :: int and r :: "bool \<times> TetrisGame"
  assume "movePiece g 0 1 = Inr r" and "fst r"
  then obtain p where p: "currentPiece g = Some p"
    and v: "isValidPosition (board g) (ptype p) (px p + 0) (py p + 1) (rotation p) = Inr True"
    and r: "snd r = g\<lparr>currentPiece := Some (p\<lparr>px := px p + 0, py := py p + 1\<rparr>)\<rparr>"
    using movePiece_True by blast
  from v have "py p + 1 < int ROWS" by (rule isValidPosition_True_floor)
  with p r show "((snd r, dropDistance + 1), (g, dropDistance))
      \<in> measure (\<lambda>(g, d). case currentPiece g of None \<Rightarrow> 0 | Some p \<Rightarrow> nat (int ROWS - py p))"
    by simp
qed

declare dropLoop.simps [simp del]

definition hardDrop :: "TetrisGame \<Rightarrow> error + TetrisGame" where
  "hardDrop g =
     (case currentPiece g of
        None \<Rightarrow> Inr g
      | Some _ \<Rightarrow>
          (case dropLoop g 0 of
             Inl e \<Rightarrow> Inl e
           | Inr (dropDistance, g1) \<Rightarrow> lockPiece (g1\<lparr>score := score g1 + dropDistance * 2\<rparr>)))"

text \<open>
  The auto-drop of \<^verbatim>\<open>gameLoop\<close>, taken when the drop interval has passed:
  \<^verbatim>\<open>if (!this.movePiece(0, 1)) this.lockPiece()\<close>.
\<close>

definition autoDrop :: "TetrisGame \<Rightarrow> error + TetrisGame" where
  "autoDrop g =
     (case movePiece g 0 1 of
        Inl e \<Rightarrow> Inl e
      | Inr (moved, g1) \<Rightarrow> if \<not> moved then lockPiece g1 else Inr g1)"

text \<open>The constructor, as far as the rules go, and \<^verbatim>\<open>startGame\<close>.\<close>

definition newGame :: "random \<Rightarrow> TetrisGame" where
  "newGame rs =
     (let (b, rs1) = newBag rs;
          (n, b1, rs2) = bagNext b rs1
      in \<lparr>board = createEmptyBoard, currentPiece = None, gameBag = b1, nextPiece = n,
          score = 0, level = 1, lines = 0, state = Start, dropInterval = BASE_SPEED, rnd = rs2\<rparr>)"

definition startGame :: "TetrisGame \<Rightarrow> error + TetrisGame" where
  "startGame g =
     (let (b, rs1) = bagReset (gameBag g) (rnd g);
          (n, b1, rs2) = bagNext b rs1;
          g1 = g\<lparr>board := createEmptyBoard, gameBag := b1, rnd := rs2, nextPiece := n,
                 currentPiece := None, score := 0, level := 1, lines := 0,
                 dropInterval := BASE_SPEED\<rparr>
      in case spawnPiece g1 of
           Inl e \<Rightarrow> Inl e
         | Inr g2 \<Rightarrow> Inr (g2\<lparr>state := Playing\<rparr>))"

definition togglePause :: "TetrisGame \<Rightarrow> TetrisGame" where
  "togglePause g =
     (if state g = Playing then g\<lparr>state := Paused\<rparr>
      else if state g = Paused then g\<lparr>state := Playing\<rparr>
      else g)"

text \<open>
  The games the program can be in: the constructor's, and what the operations leave
  when they return. The input handlers call the operations only while the state is
  \<^verbatim>\<open>'playing'\<close>; the set below does not use that and is the larger for it.
\<close>

inductive gameReachable :: "TetrisGame \<Rightarrow> bool" where
  constructed: "random_ok rs \<Longrightarrow> gameReachable (newGame rs)"
| started: "gameReachable g \<Longrightarrow> startGame g = Inr g' \<Longrightarrow> gameReachable g'"
| moved: "gameReachable g \<Longrightarrow> movePiece g dx dy = Inr (ok, g') \<Longrightarrow> gameReachable g'"
| rotated: "gameReachable g \<Longrightarrow> rotatePiece g = Inr g' \<Longrightarrow> gameReachable g'"
| softDropped: "gameReachable g \<Longrightarrow> softDrop g = Inr g' \<Longrightarrow> gameReachable g'"
| hardDropped: "gameReachable g \<Longrightarrow> hardDrop g = Inr g' \<Longrightarrow> gameReachable g'"
| autoDropped: "gameReachable g \<Longrightarrow> autoDrop g = Inr g' \<Longrightarrow> gameReachable g'"
| paused: "gameReachable g \<Longrightarrow> gameReachable (togglePause g)"

text \<open>
  What every reachable game satisfies: the board has its dimensions and no empty
  colour tag, the active piece
  a rotation in \<open>0..3\<close>, the preview a piece, the lookahead queue the seven types, the
  random source its contract, and level and drop interval follow the line count.
\<close>

definition game_inv :: "TetrisGame \<Rightarrow> bool" where
  "game_inv g =
     (board_ok (board g) \<and> tags_ok (board g) \<and>
      (case currentPiece g of None \<Rightarrow> True | Some p \<Rightarrow> 0 \<le> rotation p \<and> rotation p < 4) \<and>
      nextPiece g \<noteq> None \<and>
      mset (nextBag (gameBag g)) = mset pieces \<and>
      random_ok (rnd g) \<and>
      level g = lines g div 10 + 1 \<and>
      MIN_SPEED \<le> dropInterval g)"

text \<open>\<open>n\<close> consecutive calls of \<^verbatim>\<open>softDrop()\<close>.\<close>

fun softDrops :: "nat \<Rightarrow> TetrisGame \<Rightarrow> error + TetrisGame" where
  "softDrops 0 g = Inr g"
| "softDrops (Suc n) g = (case softDrop g of Inl e \<Rightarrow> Inl e | Inr g1 \<Rightarrow> softDrops n g1)"

text \<open>
  The score table in the words of the specification: 1, 2, 3 and 4 lines give 100,
  300, 500 and 800 points, every other count gives 0.
\<close>

definition tableOfSpec :: "nat \<Rightarrow> int" where
  "tableOfSpec n =
     (if n = 1 then 100 else if n = 2 then 300 else if n = 3 then 500
      else if n = 4 then 800 else 0)"

section \<open>Boards used in the examples\<close>

text \<open>
  A stack as it stands before a vertical I piece is dropped into column 9: rows 17, 18
  and 19 are filled in columns 0 to 8, column 0 reaches up to row 15.
\<close>

definition emptyRow :: "cell list" where
  "emptyRow = replicate COLS None"

definition rowColumn0 :: "cell list" where
  "rowColumn0 = emptyRow[0 := Some ''#FFA726'']"

definition rowAllBut9 :: "cell list" where
  "rowAllBut9 = replicate 9 (Some ''#66BB6A'') @ [None]"

definition boardBeforeLock :: board where
  "boardBeforeLock =
     replicate 15 emptyRow @ [rowColumn0, rowColumn0, rowAllBut9, rowAllBut9, rowAllBut9]"

text \<open>The same stack once the I piece is locked: rows 17, 18 and 19 are full.\<close>

definition rowColumns09 :: "cell list" where
  "rowColumns09 = rowColumn0[9 := Some ''#00E5FF'']"

definition rowFull :: "cell list" where
  "rowFull = replicate 9 (Some ''#66BB6A'') @ [Some ''#00E5FF'']"

definition boardThreeFull :: board where
  "boardThreeFull =
     replicate 15 emptyRow @ [rowColumn0, rowColumns09, rowFull, rowFull, rowFull]"

text \<open>A board whose four bottom rows are full.\<close>

definition boardFourFull :: board where
  "boardFourFull = replicate 16 emptyRow @ [rowFull, rowFull, rowFull, rowFull]"

text \<open>
  The stack \<open>boardBeforeLock\<close> with a T piece locked on top of column 0, in rows 13
  and 14.
\<close>

definition boardWithT :: board where
  "boardWithT =
     replicate 13 emptyRow @
       [emptyRow[1 := Some ''#BA68C8''],
        replicate 3 (Some ''#BA68C8'') @ replicate 7 None,
        rowColumn0, rowColumn0, rowAllBut9, rowAllBut9, rowAllBut9]"

text \<open>
  A stack with an overhang: row 18 is filled in columns 3 and 4, row 19 in column 3, so
  that the cell in row 19, column 4 lies under a filled cell.
\<close>

definition boardOverhang :: board where
  "boardOverhang =
     replicate 18 emptyRow @
       [emptyRow[3 := Some ''#42A5F5'', 4 := Some ''#42A5F5''], emptyRow[3 := Some ''#42A5F5'']]"

text \<open>
  A random source that always answers one half, and the bag it leaves after the
  constructor and seven draws: the head queue is used up.
\<close>

definition half :: random where
  "half = (\<lambda>n. 1 / 2)"

definition bagExhausted :: TetrominoBag where
  "bagExhausted = \<lparr>bag = [], nextBag = [PieceI, PieceJ, PieceO, PieceZ, PieceT, PieceL, PieceS]\<rparr>"

text \<open>
  A game in play on a given board with a given active piece: a fresh bag, of which one
  piece is drawn for the preview, and a random source that always answers 0.
\<close>

definition gameOn :: "board \<Rightarrow> ActivePiece option \<Rightarrow> TetrisGame" where
  "gameOn b p =
     \<lparr>board = b, currentPiece = p,
      gameBag = \<lparr>bag = [PieceO, PieceT, PieceS, PieceZ, PieceJ, PieceL], nextBag = pieces\<rparr>,
      nextPiece = Some PieceI, score = 0, level = 1, lines = 0, state = Playing,
      dropInterval = BASE_SPEED, rnd = (\<lambda>n. 0)\<rparr>"

text \<open>
  The placement rule in the words of the specification: every filled cell \<open>(row, col)\<close>
  of the shape lies in a column of the field, above the floor, and, when it is inside
  the field, on a cell that holds no colour.
\<close>

definition cellAccepted :: "board \<Rightarrow> int \<Rightarrow> int \<Rightarrow> bool" where
  "cellAccepted b boardY boardX =
     (0 \<le> boardX \<and> boardX < int COLS \<and> boardY < int ROWS \<and>
      (0 \<le> boardY \<longrightarrow> \<not> truthy (b ! nat boardY ! nat boardX)))"

definition placementAccepted :: "board \<Rightarrow> shape \<Rightarrow> int \<Rightarrow> int \<Rightarrow> bool" where
  "placementAccepted b sh x y =
     (\<forall>row < length sh. \<forall>col < length (sh ! row).
        sh ! row ! col \<noteq> 0 \<longrightarrow> cellAccepted b (y + int row) (x + int col))"

section \<open>Shape lookup\<close>

lemma length_shapes: "length (shapes t) = 4"
  by (cases t) simp_all

lemma jsRem_nonneg: "0 \<le> r \<Longrightarrow> jsRem r 4 = r mod 4"
  by (cases "r = 0") (simp_all add: jsRem_def)

lemma getRotatedShape_nonneg:
  "0 \<le> r \<Longrightarrow> getRotatedShape t r = Some (shapes t ! nat (r mod 4))"
  by (simp add: getRotatedShape_def arrayGet_def jsRem_nonneg length_shapes)

text \<open>
  C9, as stated, fails: the rotation parameter is a \<^verbatim>\<open>number\<close>, and for a negative one
  \<^verbatim>\<open>rotation % 4\<close> is negative, so the array lookup answers \<^verbatim>\<open>undefined\<close>.
\<close>

theorem getRotatedShape_negative_undefined: "getRotatedShape PieceT (- 1) = None"
  by (simp add: getRotatedShape_def arrayGet_def jsRem_def)

text \<open>
  C9, amended: for every piece type and every rotation that is not negative, the index
  \<^verbatim>\<open>rotation % 4\<close> lies inside the four-entry array and \<open>getRotatedShape\<close> returns
  the shape stored there, the one for the rotation taken modulo 4.
\<close>

theorem getRotatedShape_total_nonneg:
  "0 \<le> r \<Longrightarrow>
     nat (jsRem r 4) < length (shapes t) \<and> jsRem r 4 = r mod 4 \<and>
     getRotatedShape t r = Some (shapes t ! nat (r mod 4))"
  by (simp add: getRotatedShape_nonneg jsRem_nonneg length_shapes)

theorem getRotatedShape_total_nonneg_witness:
  "(0::int) \<le> 6 \<and> getRotatedShape PieceL 6 = Some [[0, 0, 0], [1, 1, 1], [1, 0, 0]]"
  using getRotatedShape_total_nonneg [of 6 PieceL] by simp

section \<open>Collision test\<close>

lemma cellAt_in_range:
  assumes "board_ok b" "0 \<le> boardY" "boardY < int ROWS" "0 \<le> boardX" "boardX < int COLS"
  shows "cellAt b boardY boardX = Inr (b ! nat boardY ! nat boardX)"
proof -
  from assms have len: "nat boardY < length b" and row: "length (b ! nat boardY) = COLS"
    by (auto simp: board_ok_def list_all_length)
  with assms show ?thesis
    by (simp add: cellAt_def arrayGet_def)
qed

lemma validCols_char:
  assumes "board_ok b"
  shows "validCols b x boardY col cs =
           Inr (\<forall>k < length cs. cs ! k \<noteq> 0 \<longrightarrow> cellAccepted b boardY (x + col + int k))"
proof (induction cs arbitrary: col)
  case Nil
  show ?case by simp
next
  case (Cons c cs)
  have split: "(\<forall>k < length (c # cs). (c # cs) ! k \<noteq> 0 \<longrightarrow> cellAccepted b boardY (x + col + int k))
      \<longleftrightarrow> ((c \<noteq> 0 \<longrightarrow> cellAccepted b boardY (x + col)) \<and>
           (\<forall>k < length cs. cs ! k \<noteq> 0 \<longrightarrow> cellAccepted b boardY (x + (col + 1) + int k)))"
    by (simp add: All_less_Suc2 algebra_simps)
  show ?case
  proof (cases "c = 0")
    case True
    then show ?thesis unfolding split by (simp add: Cons.IH)
  next
    case False
    show ?thesis
    proof (cases "x + col < 0 \<or> x + col \<ge> int COLS \<or> boardY \<ge> int ROWS")
      case True
      with False show ?thesis unfolding split by (auto simp: cellAccepted_def)
    next
      case inside: False
      show ?thesis
      proof (cases "0 \<le> boardY")
        case True
        with inside assms have "cellAt b boardY (x + col) = Inr (b ! nat boardY ! nat (x + col))"
          by (intro cellAt_in_range) auto
        with False inside True show ?thesis unfolding split
          by (simp add: Cons.IH cellAccepted_def)
      next
        case False
        with \<open>c \<noteq> 0\<close> inside show ?thesis unfolding split
          by (simp add: Cons.IH cellAccepted_def)
      qed
    qed
  qed
qed

lemma validRows_char:
  assumes "board_ok b"
  shows "validRows b x y row sh =
           Inr (\<forall>i < length sh. \<forall>k < length (sh ! i).
                  sh ! i ! k \<noteq> 0 \<longrightarrow> cellAccepted b (y + row + int i) (x + int k))"
proof (induction sh arbitrary: row)
  case Nil
  show ?case by simp
next
  case (Cons r rs)
  have "validRows b x y (row + 1) rs =
          Inr (\<forall>i < length rs. \<forall>k < length (rs ! i).
                 rs ! i ! k \<noteq> 0 \<longrightarrow> cellAccepted b (y + (row + 1) + int i) (x + int k))"
    by (rule Cons.IH)
  then show ?case
    by (simp add: validCols_char [OF assms] All_less_Suc2 algebra_simps)
qed

lemma truthy_iff_not_null: "c \<noteq> Some [] \<Longrightarrow> truthy c \<longleftrightarrow> c \<noteq> None"
  by (cases c) (simp_all add: truthy_def)

lemma cellAccepted_null:
  assumes "board_ok b" and "tags_ok b"
  shows "cellAccepted b boardY boardX \<longleftrightarrow>
           0 \<le> boardX \<and> boardX < int COLS \<and> boardY < int ROWS \<and>
           (0 \<le> boardY \<longrightarrow> b ! nat boardY ! nat boardX = None)"
proof (cases "0 \<le> boardX \<and> boardX < int COLS \<and> 0 \<le> boardY \<and> boardY < int ROWS")
  case True
  with assms(1) have y: "nat boardY < length b" and x: "nat boardX < length (b ! nat boardY)"
    by (auto simp: board_ok_def list_all_length)
  then have "b ! nat boardY \<in> set b" "b ! nat boardY ! nat boardX \<in> set (b ! nat boardY)"
    by simp_all
  with assms(2) have "b ! nat boardY ! nat boardX \<noteq> Some []"
    by (auto simp: tags_ok_def)
  then have "truthy (b ! nat boardY ! nat boardX) \<longleftrightarrow> b ! nat boardY ! nat boardX \<noteq> None"
    by (rule truthy_iff_not_null)
  with True show ?thesis by (simp add: cellAccepted_def)
next
  case False
  then show ?thesis by (auto simp: cellAccepted_def)
qed

lemma placementAccepted_null:
  assumes "board_ok b" and "tags_ok b"
  shows "placementAccepted b sh x y \<longleftrightarrow>
           (\<forall>row < length sh. \<forall>col < length (sh ! row). sh ! row ! col \<noteq> 0 \<longrightarrow>
              0 \<le> x + int col \<and> x + int col < int COLS \<and> y + int row < int ROWS \<and>
              (0 \<le> y + int row \<longrightarrow> b ! nat (y + int row) ! nat (x + int col) = None))"
  unfolding placementAccepted_def cellAccepted_null [OF assms] ..

text \<open>
  C2: on a board of \<open>ROWS\<close> by \<open>COLS\<close> cells and for a rotation that is not negative,
  \<open>isValidPosition\<close> returns, without failing, exactly whether every filled cell
  \<open>(row, col)\<close> of the shape has \<open>x + col\<close> in \<open>[0, COLS)\<close>, \<open>y + row < ROWS\<close> and, when
  \<open>y + row \<ge> 0\<close>, a board cell under it that the code's test \<^verbatim>\<open>if (cell)\<close> finds
  empty; a cell with \<open>y + row < 0\<close> is accepted whatever the board holds. On a board
  without empty colour strings (every reachable board), empty means \<^verbatim>\<open>null\<close>.
\<close>

theorem isValidPosition_iff:
  assumes "board_ok b" and "0 \<le> r"
  shows "isValidPosition b t x y r = Inr (placementAccepted b (shapes t ! nat (r mod 4)) x y) \<and>
         (tags_ok b \<longrightarrow>
            placementAccepted b (shapes t ! nat (r mod 4)) x y =
              (let sh = shapes t ! nat (r mod 4)
               in \<forall>row < length sh. \<forall>col < length (sh ! row). sh ! row ! col \<noteq> 0 \<longrightarrow>
                    0 \<le> x + int col \<and> x + int col < int COLS \<and> y + int row < int ROWS \<and>
                    (0 \<le> y + int row \<longrightarrow> b ! nat (y + int row) ! nat (x + int col) = None)))"
proof
  from assms show "isValidPosition b t x y r = Inr (placementAccepted b (shapes t ! nat (r mod 4)) x y)"
    by (simp add: isValidPosition_def getRotatedShape_nonneg validRows_char placementAccepted_def)
next
  show "tags_ok b \<longrightarrow>
            placementAccepted b (shapes t ! nat (r mod 4)) x y =
              (let sh = shapes t ! nat (r mod 4)
               in \<forall>row < length sh. \<forall>col < length (sh ! row). sh ! row ! col \<noteq> 0 \<longrightarrow>
                    0 \<le> x + int col \<and> x + int col < int COLS \<and> y + int row < int ROWS \<and>
                    (0 \<le> y + int row \<longrightarrow> b ! nat (y + int row) ! nat (x + int col) = None))"
    using assms(1) by (simp add: Let_def placementAccepted_null)
qed

lemmas board_eval =
  boardBeforeLock_def boardThreeFull_def emptyRow_def rowColumn0_def rowAllBut9_def
  rowColumns09_def rowFull_def COLS_def ROWS_def

lemma board_ok_boardBeforeLock: "board_ok boardBeforeLock"
  by (simp add: board_ok_def board_eval list_all_iff)

lemma tags_ok_boardBeforeLock: "tags_ok boardBeforeLock"
  by (simp add: tags_ok_def board_eval eval_nat_numeral)

theorem isValidPosition_iff_witness:
  "board_ok boardBeforeLock \<and> (0::int) \<le> 1 \<and> tags_ok boardBeforeLock \<and>
   isValidPosition boardBeforeLock PieceI 7 (- 2) 1 = Inr True \<and>
   placementAccepted boardBeforeLock (shapes PieceI ! nat (1 mod 4)) 7 (- 2) \<and>
   isValidPosition boardBeforeLock PieceI 6 14 1 = Inr False \<and>
   \<not> placementAccepted boardBeforeLock (shapes PieceI ! nat (1 mod 4)) 6 14 \<and>
   boardBeforeLock ! 17 ! 8 \<noteq> None \<and>
   placementAccepted boardBeforeLock (shapes PieceI ! nat (1 mod 4)) 6 14 =
     (let sh = shapes PieceI ! nat (1 mod 4)
      in \<forall>row < length sh. \<forall>col < length (sh ! row). sh ! row ! col \<noteq> 0 \<longrightarrow>
           0 \<le> 6 + int col \<and> 6 + int col < int COLS \<and> 14 + int row < int ROWS \<and>
           (0 \<le> 14 + int row \<longrightarrow> boardBeforeLock ! nat (14 + int row) ! nat (6 + int col) = None))"
proof -
  have ok: "board_ok boardBeforeLock" by (rule board_ok_boardBeforeLock)
  have a: "isValidPosition boardBeforeLock PieceI 7 (- 2) 1 = Inr True"
    by (simp add: isValidPosition_def getRotatedShape_def arrayGet_def jsRem_def cellAt_def
          truthy_def board_eval nth_append)
  have b: "isValidPosition boardBeforeLock PieceI 6 14 1 = Inr False"
    by (simp add: isValidPosition_def getRotatedShape_def arrayGet_def jsRem_def cellAt_def
          truthy_def board_eval nth_append)
  have r: "(0::int) \<le> 1" by simp
  note up = isValidPosition_iff [OF ok r, of PieceI 7 "- 2"]
  note down = isValidPosition_iff [OF ok r, of PieceI 6 14]
  from a up have c: "placementAccepted boardBeforeLock (shapes PieceI ! nat (1 mod 4)) 7 (- 2)"
    by simp
  from b down have d: "\<not> placementAccepted boardBeforeLock (shapes PieceI ! nat (1 mod 4)) 6 14"
    by simp
  have e: "boardBeforeLock ! 17 ! 8 \<noteq> None" by (simp add: board_eval nth_append)
  from down tags_ok_boardBeforeLock
  have f: "placementAccepted boardBeforeLock (shapes PieceI ! nat (1 mod 4)) 6 14 =
     (let sh = shapes PieceI ! nat (1 mod 4)
      in \<forall>row < length sh. \<forall>col < length (sh ! row). sh ! row ! col \<noteq> 0 \<longrightarrow>
           0 \<le> 6 + int col \<and> 6 + int col < int COLS \<and> 14 + int row < int ROWS \<and>
           (0 \<le> 14 + int row \<longrightarrow> boardBeforeLock ! nat (14 + int row) ! nat (6 + int col) = None))"
    by blast
  from ok a b c d e tags_ok_boardBeforeLock have
    "board_ok boardBeforeLock \<and> (0::int) \<le> 1 \<and> tags_ok boardBeforeLock \<and>
     isValidPosition boardBeforeLock PieceI 7 (- 2) 1 = Inr True \<and>
     placementAccepted boardBeforeLock (shapes PieceI ! nat (1 mod 4)) 7 (- 2) \<and>
     isValidPosition boardBeforeLock PieceI 6 14 1 = Inr False \<and>
     \<not> placementAccepted boardBeforeLock (shapes PieceI ! nat (1 mod 4)) 6 14 \<and>
     boardBeforeLock ! 17 ! 8 \<noteq> None"
    by simp
  with f show ?thesis by blast
qed

section \<open>Line clearing\<close>

text \<open>The board with three full rows arises by locking the vertical I piece.\<close>

lemma lockRows_boardBeforeLock:
  "lockRows boardBeforeLock \<lparr>ptype = PieceI, px = 7, py = 16, rotation = 1\<rparr> (color PieceI) 0
     (shapes PieceI ! 1) = Inr boardThreeFull"
  by (simp add: setCell_def arrayGet_def board_eval nth_append list_update_append)

lemma findLines_boardThreeFull: "findLines boardThreeFull ROWS = Inr [19, 18, 17]"
  by (simp add: eval_nat_numeral arrayGet_def fullRow_def board_eval nth_append)

lemma removeLines_boardThreeFull:
  "removeLines boardThreeFull [19, 18, 17] = replicate 18 emptyRow @ [rowColumns09, rowFull]"
  by (simp add: eval_nat_numeral splice1_def board_eval)

text \<open>
  C1 fails on the code. With rows 17, 18 and 19 full, \<open>clearLines\<close> collects
  \<open>[19, 18, 17]\<close> and then removes by these indices while every removal, followed by
  the new row at the top, moves the rows above down by one: the second \<^verbatim>\<open>splice\<close> hits
  the old row 17, the third the old row 15. The old row 15, which was not full, is
  gone; the old row 18, which was full, stays as the bottom row. The board the clearing
  is meant to leave, three empty rows above the old rows 0 to 16, is another one.
\<close>

theorem clearLines_three_full_rows:
  "\<exists>g'. clearLines (g\<lparr>board := boardThreeFull\<rparr>) = Inr g' \<and>
        board g' = replicate 18 emptyRow @ [boardThreeFull ! 16, boardThreeFull ! 18] \<and>
        fullRow (boardThreeFull ! 18) \<and> fullRow (board g' ! 19) \<and>
        \<not> fullRow (boardThreeFull ! 15) \<and> boardThreeFull ! 15 \<notin> set (board g') \<and>
        board g' \<noteq> replicate 3 emptyRow @ take 17 boardThreeFull"
proof -
  have rows: "boardThreeFull ! 15 = rowColumn0" "boardThreeFull ! 16 = rowColumns09"
    "boardThreeFull ! 18 = rowFull"
    by (simp_all add: boardThreeFull_def nth_append)
  have full: "fullRow rowFull" "\<not> fullRow rowColumn0"
    by (simp_all add: fullRow_def board_eval list_all_iff eval_nat_numeral)
  have notin: "rowColumn0 \<noteq> rowColumns09" "rowColumn0 \<noteq> rowFull" "rowColumn0 \<noteq> emptyRow"
    by (simp_all add: board_eval eval_nat_numeral)
  have last: "(replicate 18 emptyRow @ [rowColumns09, rowFull]) ! 19 = rowFull"
    by (simp add: nth_append)
  have meant: "replicate 3 emptyRow @ take 17 boardThreeFull =
      replicate 18 emptyRow @ [rowColumn0, rowColumns09]"
    by (simp add: boardThreeFull_def eval_nat_numeral)
  have differ: "replicate 18 emptyRow @ [rowColumns09, rowFull] \<noteq>
      replicate 3 emptyRow @ take 17 boardThreeFull"
    unfolding meant using notin by simp
  show ?thesis
    by (simp add: clearLines_def findLines_boardThreeFull removeLines_boardThreeFull
          Let_def rows full notin last differ del: removeLines.simps)
qed


section \<open>Moving and rotating the active piece\<close>

lemma isValidPosition_Inr:
  "board_ok b \<Longrightarrow> 0 \<le> r \<Longrightarrow> \<exists>ok. isValidPosition b t x y r = Inr ok"
  by (simp add: isValidPosition_def getRotatedShape_nonneg validRows_char)

text \<open>
  C7: with an active piece \<open>p\<close> on a well-formed board, \<open>movePiece g dx dy\<close> asks
  \<open>isValidPosition\<close> about \<open>(x + dx, y + dy)\<close> with the piece's own type and rotation.
  If the answer is true, it returns true and the game differs only in the piece's
  position, which is the candidate; otherwise it returns false and the game (piece,
  position, rotation and board) is the one it was given.
\<close>

theorem movePiece_commit_or_unchanged:
  assumes "board_ok (board g)" and "currentPiece g = Some p" and "0 \<le> rotation p"
  shows "\<exists>ok. isValidPosition (board g) (ptype p) (px p + dx) (py p + dy) (rotation p) = Inr ok \<and>
           movePiece g dx dy =
             (if ok then Inr (True, g\<lparr>currentPiece := Some (p\<lparr>px := px p + dx, py := py p + dy\<rparr>)\<rparr>)
              else Inr (False, g))"
proof -
  from assms(1,3) obtain ok
    where ok: "isValidPosition (board g) (ptype p) (px p + dx) (py p + dy) (rotation p) = Inr ok"
    using isValidPosition_Inr by blast
  with assms(2) have "movePiece g dx dy =
      (if ok then Inr (True, g\<lparr>currentPiece := Some (p\<lparr>px := px p + dx, py := py p + dy\<rparr>)\<rparr>)
       else Inr (False, g))"
    by (simp add: movePiece_def Let_def)
  with ok show ?thesis by blast
qed

lemma movePiece_no_piece: "currentPiece g = None \<Longrightarrow> movePiece g dx dy = Inr (False, g)"
  by (simp add: movePiece_def)

lemma isValidPosition_example_down:
  "isValidPosition boardBeforeLock PieceI 7 1 1 = Inr True"
  by (simp add: isValidPosition_def getRotatedShape_def arrayGet_def jsRem_def cellAt_def
        truthy_def board_eval nth_append)

lemma isValidPosition_example_right:
  "isValidPosition boardBeforeLock PieceI 8 0 1 = Inr False"
  by (simp add: isValidPosition_def getRotatedShape_def arrayGet_def jsRem_def cellAt_def
        truthy_def board_eval nth_append)

theorem movePiece_commit_or_unchanged_witness:
  "movePiece (gameOn boardBeforeLock (Some \<lparr>ptype = PieceI, px = 7, py = 0, rotation = 1\<rparr>)) 0 1 =
     Inr (True, gameOn boardBeforeLock (Some \<lparr>ptype = PieceI, px = 7, py = 1, rotation = 1\<rparr>)) \<and>
   movePiece (gameOn boardBeforeLock (Some \<lparr>ptype = PieceI, px = 7, py = 0, rotation = 1\<rparr>)) 1 0 =
     Inr (False, gameOn boardBeforeLock (Some \<lparr>ptype = PieceI, px = 7, py = 0, rotation = 1\<rparr>))"
proof -
  let ?p = "\<lparr>ptype = PieceI, px = 7, py = 0, rotation = 1\<rparr>"
  let ?g = "gameOn boardBeforeLock (Some ?p)"
  have b: "board_ok (board ?g)" by (simp add: gameOn_def board_ok_boardBeforeLock)
  have c: "currentPiece ?g = Some ?p" by (simp add: gameOn_def)
  have r: "0 \<le> rotation ?p" by simp
  from movePiece_commit_or_unchanged [OF b c r, of 0 1]
  have down: "movePiece ?g 0 1 = Inr (True, ?g\<lparr>currentPiece := Some (?p\<lparr>px := 7, py := 1\<rparr>)\<rparr>)"
    by (auto simp: gameOn_def isValidPosition_example_down)
  from movePiece_commit_or_unchanged [OF b c r, of 1 0]
  have right: "movePiece ?g 1 0 = Inr (False, ?g)"
    by (auto simp: gameOn_def isValidPosition_example_right)
  from down right show ?thesis by (simp add: gameOn_def)
qed

lemma tryKicks_find:
  assumes "board_ok (board g)" and "0 \<le> target"
  shows "tryKicks g p target kicks =
           Inr (case find (\<lambda>(dx, dy). isValidPosition (board g) (ptype p) (px p + dx) (py p - dy) target
                                          = Inr True) kicks of
                  None \<Rightarrow> g
                | Some (dx, dy) \<Rightarrow>
                    g\<lparr>currentPiece := Some (p\<lparr>px := px p + dx, py := py p - dy, rotation := target\<rparr>)\<rparr>)"
proof (induction kicks)
  case Nil
  show ?case by simp
next
  case (Cons k kicks)
  obtain kx ky where k: "k = (kx, ky)" by (cases k)
  from assms obtain ok
    where ok: "isValidPosition (board g) (ptype p) (px p + kx) (py p - ky) target = Inr ok"
    using isValidPosition_Inr by blast
  show ?case
    by (cases ok) (simp_all add: k ok Let_def Cons.IH)
qed

text \<open>
  C3: with an active piece \<open>p\<close> of rotation \<open>r \<ge> 0\<close> on a well-formed board,
  \<open>rotatePiece\<close> takes the target \<open>(r + 1) mod 4\<close> and the kick list
  \<open>getWallKicks type r target\<close>, and commits position \<open>(x + dx, y - dy)\<close> and the target
  rotation for the first \<open>(dx, dy)\<close> of the list, in list order, that
  \<open>isValidPosition\<close> accepts there; when it accepts none, the game is returned as it
  was.
\<close>

theorem rotatePiece_first_valid_kick:
  assumes "board_ok (board g)" and "currentPiece g = Some p" and "0 \<le> rotation p"
  shows "rotatePiece g =
           (let target = (rotation p + 1) mod 4;
                kicks = getWallKicks (ptype p) (rotation p) target
            in Inr (case find (\<lambda>(dx, dy). isValidPosition (board g) (ptype p) (px p + dx) (py p - dy) target
                                              = Inr True) kicks of
                      None \<Rightarrow> g
                    | Some (dx, dy) \<Rightarrow>
                        g\<lparr>currentPiece := Some (p\<lparr>px := px p + dx, py := py p - dy, rotation := target\<rparr>)\<rparr>))"
proof -
  from assms(3) have t: "jsRem (rotation p + 1) 4 = (rotation p + 1) mod 4"
    by (intro jsRem_nonneg) simp
  have "0 \<le> (rotation p + 1) mod 4" by simp
  with assms(1,2) t show ?thesis
    by (simp add: rotatePiece_def Let_def tryKicks_find)
qed


lemmas eval_defs =
  isValidPosition_def getRotatedShape_def arrayGet_def jsRem_def cellAt_def truthy_def
  board_eval nth_append createEmptyBoard_def boardOverhang_def

lemma board_ok_createEmptyBoard: "board_ok createEmptyBoard"
  by (simp add: board_ok_def createEmptyBoard_def list_all_iff)

lemma board_ok_boardOverhang: "board_ok boardOverhang"
  by (simp add: board_ok_def eval_defs list_all_iff)

theorem rotatePiece_first_valid_kick_witness:
  "rotatePiece (gameOn createEmptyBoard (Some \<lparr>ptype = PieceT, px = 4, py = 18, rotation = 0\<rparr>)) =
     Inr (gameOn createEmptyBoard (Some \<lparr>ptype = PieceT, px = 3, py = 17, rotation = 1\<rparr>)) \<and>
   rotatePiece (gameOn boardOverhang (Some \<lparr>ptype = PieceT, px = 4, py = 18, rotation = 0\<rparr>)) =
     Inr (gameOn boardOverhang (Some \<lparr>ptype = PieceT, px = 4, py = 18, rotation = 0\<rparr>))"
proof -
  let ?p = "\<lparr>ptype = PieceT, px = 4, py = 18, rotation = 0\<rparr>"
  have r: "0 \<le> rotation ?p" by simp
  have "rotatePiece (gameOn createEmptyBoard (Some ?p)) =
          Inr (gameOn createEmptyBoard (Some \<lparr>ptype = PieceT, px = 3, py = 17, rotation = 1\<rparr>))"
    using rotatePiece_first_valid_kick [of "gameOn createEmptyBoard (Some ?p)" ?p] board_ok_createEmptyBoard
    by (simp add: gameOn_def getWallKicks_def WALL_KICKS_JLSTZ_def eval_defs)
  moreover have "rotatePiece (gameOn boardOverhang (Some ?p)) = Inr (gameOn boardOverhang (Some ?p))"
    using rotatePiece_first_valid_kick [of "gameOn boardOverhang (Some ?p)" ?p] board_ok_boardOverhang
    by (simp add: gameOn_def getWallKicks_def WALL_KICKS_JLSTZ_def eval_defs)
  ultimately show ?thesis by simp
qed

section \<open>The bag\<close>

text \<open>The shuffle returns a permutation of its argument.\<close>

lemma random_ok_tail: "random_ok rs \<Longrightarrow> random_ok (randomTail rs)"
  by (simp add: random_ok_def randomTail_def)

lemma random_index:
  assumes "random_ok rs"
  shows "nat \<lfloor>rs 0 * real (Suc k + 1)\<rfloor> \<le> Suc k"
proof -
  from assms have "0 \<le> rs 0" "rs 0 < 1" by (simp_all add: random_ok_def)
  then have "rs 0 * real (Suc k + 1) < real (Suc k + 1)" by simp
  then have "\<lfloor>rs 0 * real (Suc k + 1)\<rfloor> < int (Suc k + 1)"
    by (simp add: floor_less_iff)
  then show ?thesis by simp
qed

lemma shuffleLoop_perm:
  "random_ok rs \<Longrightarrow> k < length xs \<Longrightarrow>
     mset (fst (shuffleLoop k xs rs)) = mset xs \<and> random_ok (snd (shuffleLoop k xs rs))"
proof (induction k arbitrary: xs rs)
  case 0
  then show ?case by simp
next
  case (Suc k)
  let ?j = "nat \<lfloor>rs 0 * real (Suc k + 1)\<rfloor>"
  let ?ys = "xs[Suc k := xs ! ?j, ?j := xs ! Suc k]"
  from Suc.prems have j: "?j < length xs" using random_index [of rs k] by simp
  with Suc.prems have swap: "mset ?ys = mset xs" by (simp add: mset_swap)
  from Suc.prems have "k < length ?ys" by simp
  with Suc.IH [of "randomTail rs" ?ys] Suc.prems(1)
  have "mset (fst (shuffleLoop k ?ys (randomTail rs))) = mset ?ys \<and>
        random_ok (snd (shuffleLoop k ?ys (randomTail rs)))"
    by (simp add: random_ok_tail)
  with swap show ?case by (simp add: Let_def)
qed

lemma shuffleArray_perm:
  assumes "random_ok rs"
  shows "mset (fst (shuffleArray xs rs)) = mset xs \<and> random_ok (snd (shuffleArray xs rs))"
proof (cases "xs = []")
  case True
  with assms show ?thesis by (simp add: shuffleArray_def)
next
  case False
  then have "length xs - 1 < length xs" by simp
  with assms show ?thesis unfolding shuffleArray_def by (rule shuffleLoop_perm)
qed


lemma fillBag_perm:
  assumes "random_ok rs"
  shows "mset (bag (fst (fillBag b rs))) = mset pieces" "nextBag (fst (fillBag b rs)) = nextBag b"
    "random_ok (snd (fillBag b rs))"
  using shuffleArray_perm [OF assms, of pieces]
  by (simp_all add: fillBag_def split_beta)

lemma fillNextBag_perm:
  assumes "random_ok rs"
  shows "mset (nextBag (fst (fillNextBag b rs))) = mset pieces" "bag (fst (fillNextBag b rs)) = bag b"
    "random_ok (snd (fillNextBag b rs))"
  using shuffleArray_perm [OF assms, of pieces]
  by (simp_all add: fillNextBag_def split_beta)

lemma bagReset_perm:
  assumes "random_ok rs"
  shows "mset (bag (fst (bagReset b rs))) = mset pieces"
    "mset (nextBag (fst (bagReset b rs))) = mset pieces"
    "random_ok (snd (bagReset b rs))"
  using fillBag_perm [OF assms, of b] fillNextBag_perm [of "snd (fillBag b rs)" "fst (fillBag b rs)"]
  by (simp_all add: bagReset_def split_beta)

lemma bagNext_nonempty:
  "bag b \<noteq> [] \<Longrightarrow> bagNext b rs = (Some (last (bag b)), b\<lparr>bag := butlast (bag b)\<rparr>, rs)"
  by (simp add: bagNext_def pop_def)

lemma bagNext_empty:
  "bag b = [] \<Longrightarrow>
     bagNext b rs =
       (fst (pop (nextBag b)),
        \<lparr>bag = snd (pop (nextBag b)), nextBag = fst (shuffleArray pieces rs)\<rparr>,
        snd (shuffleArray pieces rs))"
  by (simp add: bagNext_def fillNextBag_def split_beta)

lemma draws_within_bag:
  "n \<le> length (bag b) \<Longrightarrow>
     draws n b rs =
       (map Some (take n (rev (bag b))), b\<lparr>bag := take (length (bag b) - n) (bag b)\<rparr>, rs)"
proof (induction n arbitrary: b)
  case 0
  then show ?case by simp
next
  case (Suc n)
  then have ne: "bag b \<noteq> []" by auto
  let ?b1 = "b\<lparr>bag := butlast (bag b)\<rparr>"
  from Suc.prems have "n \<le> length (bag ?b1)" by simp
  then have IH: "draws n ?b1 rs =
      (map Some (take n (rev (bag ?b1))), ?b1\<lparr>bag := take (length (bag ?b1) - n) (bag ?b1)\<rparr>, rs)"
    by (rule Suc.IH)
  have r: "rev (bag b) = last (bag b) # rev (butlast (bag b))"
    using ne by (metis append_butlast_last_id rev.simps rev_append rev_rev_ident append_Cons append_Nil)
  from ne have "length (bag b) - Suc n < length (bag b)" by simp
  then have t: "take (length (bag b) - Suc n) (butlast (bag b)) = take (length (bag b) - Suc n) (bag b)"
    by (rule take_butlast)
  show ?case
    by (simp add: bagNext_nonempty [OF ne] IH r t)
qed

lemma mset_map_Some_rev: "mset xs = mset ys \<Longrightarrow> mset (map Some (rev xs)) = mset (map Some ys)"
  by (metis mset_map mset_rev)

lemma draws_full_bag:
  assumes "mset (bag b) = mset pieces"
  shows "mset (fst (draws 7 b rs)) = mset (map Some pieces)"
proof -
  from assms have "length (bag b) = length pieces" by (rule mset_eq_length)
  then have len: "length (bag b) = 7" by (simp add: pieces_def)
  then have "draws 7 b rs = (map Some (take 7 (rev (bag b))), b\<lparr>bag := take (length (bag b) - 7) (bag b)\<rparr>, rs)"
    by (intro draws_within_bag) simp
  with len assms show ?thesis by (simp add: mset_map_Some_rev)
qed

lemma draws_at_boundary:
  assumes "bag b = []" and "mset (nextBag b) = mset pieces"
  shows "mset (fst (draws 7 b rs)) = mset (map Some pieces)"
proof -
  from assms(2) have "length (nextBag b) = length pieces" by (rule mset_eq_length)
  then have len: "length (nextBag b) = 7" by (simp add: pieces_def)
  then have ne: "nextBag b \<noteq> []" by auto
  let ?b1 = "\<lparr>bag = butlast (nextBag b), nextBag = fst (shuffleArray pieces rs)\<rparr>"
  let ?rs1 = "snd (shuffleArray pieces rs)"
  have first: "bagNext b rs = (Some (last (nextBag b)), ?b1, ?rs1)"
    using ne by (simp add: bagNext_empty [OF assms(1)] pop_def)
  have "6 \<le> length (bag ?b1)" using len by simp
  then have rest: "draws 6 ?b1 ?rs1 =
      (map Some (take 6 (rev (bag ?b1))), ?b1\<lparr>bag := take (length (bag ?b1) - 6) (bag ?b1)\<rparr>, ?rs1)"
    by (rule draws_within_bag)
  have seven: "draws 7 b rs = (let (v, b1, rs1) = bagNext b rs; (vs, b2, rs2) = draws 6 b1 rs1 in (v # vs, b2, rs2))"
    by (simp add: eval_nat_numeral)
  have "fst (draws 7 b rs) = Some (last (nextBag b)) # map Some (rev (butlast (nextBag b)))"
    using len by (simp add: seven first rest)
  also have "\<dots> = map Some (rev (nextBag b))"
    using ne by (metis append_butlast_last_id list.simps(9) rev.simps(2) rev_append rev_rev_ident append_Cons append_Nil rev_singleton_conv)
  finally show ?thesis using assms(2) by (simp add: mset_map_Some_rev)
qed

lemma bagReachable_inv:
  "bagReachable b \<Longrightarrow> mset (nextBag b) = mset pieces"
proof (induction rule: bagReachable.induct)
  case (afterReset rs b)
  then show ?case by (simp add: bagReset_perm)
next
  case (afterNext b rs)
  show ?case
  proof (cases "bag b = []")
    case True
    with afterNext show ?thesis
      by (simp add: bagNext_empty shuffleArray_perm)
  next
    case False
    with afterNext show ?thesis by (simp add: bagNext_nonempty)
  qed
qed


lemma bagNext_random_ok:
  assumes "random_ok rs"
  shows "random_ok (snd (snd (bagNext b rs)))"
proof (cases "bag b = []")
  case True
  with assms show ?thesis by (simp add: bagNext_empty shuffleArray_perm)
next
  case False
  with assms show ?thesis by (simp add: bagNext_nonempty)
qed

lemma draws_reachable:
  "bagReachable b \<Longrightarrow> random_ok rs \<Longrightarrow> bagReachable (fst (snd (draws n b rs)))"
proof (induction n arbitrary: b rs)
  case 0
  then show ?case by simp
next
  case (Suc n)
  have "bagReachable (fst (snd (bagNext b rs)))"
    using Suc.prems by (rule bagReachable.afterNext)
  moreover have "random_ok (snd (snd (bagNext b rs)))"
    using Suc.prems(2) by (rule bagNext_random_ok)
  ultimately have "bagReachable (fst (snd (draws n (fst (snd (bagNext b rs))) (snd (snd (bagNext b rs))))))"
    by (rule Suc.IH)
  then show ?case by (simp add: split_beta)
qed

lemma pieces_each_once: "count (mset (map Some pieces)) (Some t) = 1"
  by (cases t) (simp_all add: pieces_def)

text \<open>
  C4: seven consecutive \<open>next()\<close> calls made right after a \<open>reset()\<close> (or the
  constructor), or in a reachable state whose head queue is empty, return every piece
  type exactly once. A call refills only when the head queue is empty: otherwise it
  pops the head queue and touches neither the lookahead nor the random source; when
  the head queue is empty it promotes the lookahead, pops it, and installs a fresh
  shuffle of the seven types as lookahead.
\<close>

theorem bag_seven_draws_each_once:
  assumes "random_ok rs"
  shows "(random_ok rs0 \<longrightarrow>
            mset (fst (draws 7 (fst (bagReset b0 rs0)) rs)) = mset (map Some pieces)) \<and>
         (bagReachable b \<and> length (bag b) = 0 \<longrightarrow>
            mset (fst (draws 7 b rs)) = mset (map Some pieces)) \<and>
         (\<forall>t. count (mset (map Some pieces)) (Some t) = 1) \<and>
         (length (bag b) \<noteq> 0 \<longrightarrow>
            bagNext b rs = (Some (last (bag b)), b\<lparr>bag := butlast (bag b)\<rparr>, rs)) \<and>
         (length (bag b) = 0 \<longrightarrow>
            bagNext b rs =
              (fst (pop (nextBag b)),
               \<lparr>bag = snd (pop (nextBag b)), nextBag = fst (shuffleArray pieces rs)\<rparr>,
               snd (shuffleArray pieces rs)) \<and>
            mset (fst (shuffleArray pieces rs)) = mset pieces)"
proof (intro conjI impI allI)
  assume "random_ok rs0"
  then have "mset (bag (fst (bagReset b0 rs0))) = mset pieces" by (rule bagReset_perm)
  then show "mset (fst (draws 7 (fst (bagReset b0 rs0)) rs)) = mset (map Some pieces)"
    by (rule draws_full_bag)
next
  assume "bagReachable b \<and> length (bag b) = 0"
  then have "bag b = []" and "mset (nextBag b) = mset pieces"
    by (simp_all add: bagReachable_inv)
  then show "mset (fst (draws 7 b rs)) = mset (map Some pieces)"
    by (rule draws_at_boundary)
next
  fix t show "count (mset (map Some pieces)) (Some t) = 1" by (rule pieces_each_once)
next
  assume "length (bag b) \<noteq> 0"
  then show "bagNext b rs = (Some (last (bag b)), b\<lparr>bag := butlast (bag b)\<rparr>, rs)"
    by (simp add: bagNext_nonempty)
next
  assume "length (bag b) = 0"
  then show "bagNext b rs =
      (fst (pop (nextBag b)),
       \<lparr>bag = snd (pop (nextBag b)), nextBag = fst (shuffleArray pieces rs)\<rparr>,
       snd (shuffleArray pieces rs))"
    by (simp add: bagNext_empty)
next
  show "mset (fst (shuffleArray pieces rs)) = mset pieces"
    using assms by (simp add: shuffleArray_perm)
qed

lemma random_ok_half: "random_ok half"
  by (simp add: random_ok_def half_def)

lemma randomTail_half: "randomTail half = half"
  by (simp add: randomTail_def half_def)

lemma shuffle_half: "shuffleArray pieces half = ([PieceI, PieceJ, PieceO, PieceZ, PieceT, PieceL, PieceS], half)"
  by (simp add: shuffleArray_def pieces_def eval_nat_numeral Let_def randomTail_half) (simp add: half_def)

lemma newBag_half:
  "newBag half = (\<lparr>bag = [PieceI, PieceJ, PieceO, PieceZ, PieceT, PieceL, PieceS],
                    nextBag = [PieceI, PieceJ, PieceO, PieceZ, PieceT, PieceL, PieceS]\<rparr>, half)"
  by (simp add: newBag_def bagReset_def fillBag_def fillNextBag_def shuffle_half)

lemma draws_newBag_half:
  "draws 7 (fst (newBag half)) half =
     ([Some PieceS, Some PieceL, Some PieceT, Some PieceZ, Some PieceO, Some PieceJ, Some PieceI],
      bagExhausted, half)"
  by (simp add: newBag_half eval_nat_numeral bagNext_def pop_def bagExhausted_def)

lemma bagReachable_bagExhausted: "bagReachable bagExhausted"
proof -
  have "bagReachable (fst (newBag half))"
    unfolding newBag_def using random_ok_half by (rule bagReachable.afterReset)
  then have "bagReachable (fst (snd (draws 7 (fst (newBag half)) half)))"
    using random_ok_half by (rule draws_reachable)
  then show ?thesis by (simp add: draws_newBag_half)
qed

lemma draws_bagExhausted:
  "fst (draws 7 bagExhausted half) =
     [Some PieceS, Some PieceL, Some PieceT, Some PieceZ, Some PieceO, Some PieceJ, Some PieceI]"
  by (simp add: eval_nat_numeral bagNext_def pop_def bagExhausted_def fillNextBag_def shuffle_half)

theorem bag_seven_draws_each_once_witness:
  "random_ok half \<and> bagReachable bagExhausted \<and> length (bag bagExhausted) = 0 \<and>
   fst (draws 7 (fst (bagReset \<lparr>bag = [], nextBag = []\<rparr> half)) half) =
     [Some PieceS, Some PieceL, Some PieceT, Some PieceZ, Some PieceO, Some PieceJ, Some PieceI] \<and>
   mset (fst (draws 7 (fst (bagReset \<lparr>bag = [], nextBag = []\<rparr> half)) half)) = mset (map Some pieces) \<and>
   fst (draws 7 bagExhausted half) =
     [Some PieceS, Some PieceL, Some PieceT, Some PieceZ, Some PieceO, Some PieceJ, Some PieceI] \<and>
   mset (fst (draws 7 bagExhausted half)) = mset (map Some pieces) \<and>
   bagNext bagExhausted half =
     (Some PieceS,
      \<lparr>bag = [PieceI, PieceJ, PieceO, PieceZ, PieceT, PieceL],
         nextBag = [PieceI, PieceJ, PieceO, PieceZ, PieceT, PieceL, PieceS]\<rparr>, half) \<and>
   length (bag (fst (newBag half))) \<noteq> 0 \<and>
   bagNext (fst (newBag half)) half =
     (Some PieceS,
      \<lparr>bag = [PieceI, PieceJ, PieceO, PieceZ, PieceT, PieceL],
         nextBag = [PieceI, PieceJ, PieceO, PieceZ, PieceT, PieceL, PieceS]\<rparr>, half)"
proof -
  note inst = bag_seven_draws_each_once [OF random_ok_half, of half "\<lparr>bag = [], nextBag = []\<rparr>" bagExhausted]
  have e: "length (bag bagExhausted) = 0" by (simp add: bagExhausted_def)
  from inst random_ok_half
  have a: "mset (fst (draws 7 (fst (bagReset \<lparr>bag = [], nextBag = []\<rparr> half)) half)) = mset (map Some pieces)"
    by blast
  from inst bagReachable_bagExhausted e
  have b: "mset (fst (draws 7 bagExhausted half)) = mset (map Some pieces)"
    by blast
  from inst e
  have c: "bagNext bagExhausted half =
      (fst (pop (nextBag bagExhausted)),
       \<lparr>bag = snd (pop (nextBag bagExhausted)), nextBag = fst (shuffleArray pieces half)\<rparr>,
       snd (shuffleArray pieces half))"
    by blast
  have d: "fst (draws 7 (fst (bagReset \<lparr>bag = [], nextBag = []\<rparr> half)) half) =
     [Some PieceS, Some PieceL, Some PieceT, Some PieceZ, Some PieceO, Some PieceJ, Some PieceI]"
    using draws_newBag_half by (simp add: newBag_def)
  from c have c': "bagNext bagExhausted half =
     (Some PieceS,
      \<lparr>bag = [PieceI, PieceJ, PieceO, PieceZ, PieceT, PieceL],
         nextBag = [PieceI, PieceJ, PieceO, PieceZ, PieceT, PieceL, PieceS]\<rparr>, half)"
    by (simp add: shuffle_half pop_def bagExhausted_def)
  have f: "length (bag (fst (newBag half))) \<noteq> 0" by (simp add: newBag_half)
  with bag_seven_draws_each_once [OF random_ok_half, of half "\<lparr>bag = [], nextBag = []\<rparr>" "fst (newBag half)"]
  have "bagNext (fst (newBag half)) half =
      (Some (last (bag (fst (newBag half)))),
       (fst (newBag half))\<lparr>bag := butlast (bag (fst (newBag half)))\<rparr>, half)"
    by blast
  then have g: "bagNext (fst (newBag half)) half =
     (Some PieceS,
      \<lparr>bag = [PieceI, PieceJ, PieceO, PieceZ, PieceT, PieceL],
         nextBag = [PieceI, PieceJ, PieceO, PieceZ, PieceT, PieceL, PieceS]\<rparr>, half)"
    by (simp add: newBag_half)
  from random_ok_half bagReachable_bagExhausted e a b c' d draws_bagExhausted f g
  show ?thesis by simp
qed

lemma nat_int_pred: "nat (int n - 1) = n - 1"
  by simp

text \<open>
  C8: in every bag state, \<open>peek()\<close> returns the value the next \<open>next()\<close> returns,
  whatever the random source holds, also when the head queue is empty and the value
  is the top of the lookahead; and it returns the bag unchanged.
\<close>

theorem bagPeek_is_next:
  "fst (bagPeek b) = fst (bagNext b rs) \<and> snd (bagPeek b) = b"
proof (cases "bag b = []")
  case True
  then show ?thesis
    by (simp add: bagPeek_def bagNext_empty pop_def arrayGet_def last_conv_nth nat_int_pred)
next
  case False
  then show ?thesis
    by (simp add: bagPeek_def bagNext_nonempty arrayGet_def last_conv_nth nat_int_pred)
qed


section \<open>Dimensions of the board\<close>

lemma board_ok_rows: "board_ok b \<Longrightarrow> length b = ROWS"
  by (simp add: board_ok_def)

lemma board_ok_cols: "board_ok b \<Longrightarrow> i < ROWS \<Longrightarrow> length (b ! i) = COLS"
  by (simp add: board_ok_def list_all_length)

lemma board_ok_update:
  assumes "board_ok b" and "length r = COLS"
  shows "board_ok (b[i := r])"
  using assms set_update_subset_insert [of b i r] by (auto simp: board_ok_def list_all_iff)

lemma setCell_board_ok:
  assumes "board_ok b" and "0 \<le> boardY" "boardY < int ROWS" "0 \<le> boardX" "boardX < int COLS"
  shows "setCell b boardY boardX v = Inr (b[nat boardY := (b ! nat boardY)[nat boardX := v]])"
    and "board_ok (b[nat boardY := (b ! nat boardY)[nat boardX := v]])"
proof -
  from assms have y: "nat boardY < ROWS" by simp
  with assms(1) have len: "length (b ! nat boardY) = COLS" by (rule board_ok_cols)
  from assms y len show "setCell b boardY boardX v = Inr (b[nat boardY := (b ! nat boardY)[nat boardX := v]])"
    by (simp add: setCell_def arrayGet_def board_ok_rows)
  from assms(1) len show "board_ok (b[nat boardY := (b ! nat boardY)[nat boardX := v]])"
    by (intro board_ok_update) simp_all
qed

lemma lockCols_board_ok:
  "board_ok b \<Longrightarrow> \<exists>b'. lockCols b p c row col cs = Inr b' \<and> board_ok b'"
proof (induction cs arbitrary: b col)
  case Nil
  then show ?case by simp
next
  case (Cons v vs)
  show ?case
  proof (cases "v \<noteq> 0 \<and> py p + row \<ge> 0 \<and> py p + row < int ROWS \<and> px p + col \<ge> 0 \<and> px p + col < int COLS")
    case True
    let ?b1 = "b[nat (py p + row) := (b ! nat (py p + row))[nat (px p + col) := Some c]]"
    from True Cons.prems have s: "setCell b (py p + row) (px p + col) (Some c) = Inr ?b1" and ok: "board_ok ?b1"
      by (simp_all add: setCell_board_ok)
    from Cons.IH [OF ok] obtain b' where "lockCols ?b1 p c row (col + 1) vs = Inr b'" "board_ok b'"
      by blast
    with True s show ?thesis by (simp add: Let_def)
  next
    case False
    from Cons.IH [OF Cons.prems] obtain b' where "lockCols b p c row (col + 1) vs = Inr b'" "board_ok b'"
      by blast
    with False show ?thesis by (auto simp: Let_def)
  qed
qed

lemma lockRows_board_ok:
  "board_ok b \<Longrightarrow> \<exists>b'. lockRows b p c row sh = Inr b' \<and> board_ok b'"
proof (induction sh arbitrary: b row)
  case Nil
  then show ?case by simp
next
  case (Cons r rs)
  from lockCols_board_ok [OF Cons.prems] obtain b1 where b1: "lockCols b p c row 0 r = Inr b1" "board_ok b1"
    by blast
  from Cons.IH [OF b1(2)] obtain b' where "lockRows b1 p c (row + 1) rs = Inr b'" "board_ok b'"
    by blast
  with b1 show ?case by simp
qed

lemma findLines_char:
  "n \<le> length b \<Longrightarrow> findLines b n = Inr (filter (\<lambda>i. fullRow (b ! i)) (rev [0..<n]))"
  by (induction n) (simp_all add: arrayGet_def)

lemma length_splice1: "row < length xs \<Longrightarrow> length (splice1 xs row) = length xs - 1"
  by (simp add: splice1_def)

lemma board_ok_clear_one:
  assumes "board_ok b" and "row < ROWS"
  shows "board_ok (replicate COLS None # splice1 b row)"
proof -
  from assms have "length (splice1 b row) = ROWS - 1"
    by (simp add: length_splice1 board_ok_rows)
  moreover have "list_all (\<lambda>r. length r = COLS) (splice1 b row)"
    using assms(1) by (auto simp: board_ok_def splice1_def list_all_iff dest: in_set_takeD in_set_dropD)
  ultimately show ?thesis by (simp add: board_ok_def ROWS_def)
qed

lemma removeLines_board_ok:
  "board_ok b \<Longrightarrow> \<forall>row \<in> set linesToClear. row < ROWS \<Longrightarrow> board_ok (removeLines b linesToClear)"
  by (induction linesToClear arbitrary: b) (simp_all add: board_ok_clear_one)



section \<open>Line clearing: score, level and speed\<close>

lemma findLines_board_ok:
  assumes "board_ok b"
  shows "findLines b ROWS = Inr (filter (\<lambda>i. fullRow (b ! i)) (rev [0..<ROWS]))"
  using assms by (simp add: findLines_char board_ok_rows)

lemma count_full_rows:
  "length (filter (\<lambda>i. fullRow (b ! i)) (rev [0..<length b])) = length (filter fullRow b)"
proof -
  have "length (filter (\<lambda>i. fullRow (b ! i)) (rev [0..<length b])) =
        length (filter (\<lambda>i. fullRow (b ! i)) [0..<length b])"
    by (simp add: rev_filter [symmetric])
  also have "\<dots> = length (filter fullRow (map (\<lambda>i. b ! i) [0..<length b]))"
    by (simp add: filter_map comp_def)
  also have "\<dots> = length (filter fullRow b)"
    by (simp add: map_nth)
  finally show ?thesis .
qed

text \<open>What \<open>clearLines\<close> does to a well-formed board, field by field.\<close>

lemma clearLines_effect:
  assumes "board_ok (board g)"
  defines "n \<equiv> length (filter fullRow (board g))"
  shows "\<exists>g'. clearLines g = Inr g' \<and>
           board_ok (board g') \<and>
           score g' = score g + lineScoreOf n * level g \<and>
           lines g' = lines g + int n \<and>
           level g' = (if lines g' div 10 + 1 > level g \<and> n \<noteq> 0 then lines g' div 10 + 1 else level g) \<and>
           dropInterval g' =
             (if lines g' div 10 + 1 > level g \<and> n \<noteq> 0
              then max MIN_SPEED (BASE_SPEED - (level g' - 1) * SPEED_DECREASE_PER_LEVEL)
              else dropInterval g) \<and>
           currentPiece g' = currentPiece g \<and> gameBag g' = gameBag g \<and>
           nextPiece g' = nextPiece g \<and> rnd g' = rnd g \<and> state g' = state g"
proof -
  let ?ls = "filter (\<lambda>i. fullRow (board g ! i)) (rev [0..<ROWS])"
  from assms(1) have f: "findLines (board g) ROWS = Inr ?ls" by (rule findLines_board_ok)
  have len: "length ?ls = n"
    using count_full_rows [of "board g"] assms(1) by (simp add: n_def board_ok_rows)
  have rows: "\<forall>row \<in> set ?ls. row < ROWS" by simp
  show ?thesis
  proof (cases "n = 0")
    case True
    with len have "?ls = []" by simp
    with f True assms(1) show ?thesis
      by (simp add: clearLines_def lineScoreOf_def SCORE_TABLE_def)
  next
    case False
    with len have ne: "length ?ls \<noteq> 0" by simp
    from assms(1) rows have "board_ok (removeLines (board g) ?ls)" by (rule removeLines_board_ok)
    with f ne len show ?thesis
      by (simp add: clearLines_def Let_def del: removeLines.simps)
  qed
qed

lemma lineScoreOf_table:
  "lineScoreOf n = (if n = 1 then 100 else if n = 2 then 300 else if n = 3 then 500
                    else if n = 4 then 800 else 0)"
  by (simp add: lineScoreOf_def SCORE_TABLE_def)

text \<open>
  With a single full row the clearing loop does what it is meant to: the row goes, the
  rows above move down by one, an empty row comes in at the top.
\<close>

lemma clearLines_one_full_row:
  assumes "board_ok (board g)"
    and "filter (\<lambda>i. fullRow (board g ! i)) (rev [0..<ROWS]) = [row]"
  shows "\<exists>g'. clearLines g = Inr g' \<and>
              board g' = replicate COLS None # take row (board g) @ drop (Suc row) (board g)"
  using assms
  by (simp add: clearLines_def findLines_board_ok Let_def splice1_def)


section \<open>Cells hold null or a colour\<close>

lemma color_nonempty: "color t \<noteq> []"
  by (cases t) simp_all

lemma tags_ok_createEmptyBoard: "tags_ok createEmptyBoard"
  by (simp add: tags_ok_def createEmptyBoard_def)

lemma setCell_tags:
  assumes "tags_ok b" and "v \<noteq> Some []" and "setCell b boardY boardX v = Inr b'"
  shows "tags_ok b'"
proof -
  from assms(3) have y: "0 \<le> boardY" "nat boardY < length b"
    and b': "b' = b[nat boardY := (b ! nat boardY)[nat boardX := v]]"
    by (auto simp: setCell_def arrayGet_def split: if_splits)
  from y have "b ! nat boardY \<in> set b" by simp
  with assms(1) have "\<forall>c \<in> set (b ! nat boardY). c \<noteq> Some []" by (simp add: tags_ok_def)
  with assms(2) have row: "\<forall>c \<in> set ((b ! nat boardY)[nat boardX := v]). c \<noteq> Some []"
    using set_update_subset_insert [of "b ! nat boardY" "nat boardX" v] by auto
  show ?thesis
    unfolding b' tags_ok_def
  proof
    fix r assume "r \<in> set (b[nat boardY := (b ! nat boardY)[nat boardX := v]])"
    then have "r = (b ! nat boardY)[nat boardX := v] \<or> r \<in> set b"
      using set_update_subset_insert [of b "nat boardY" "(b ! nat boardY)[nat boardX := v]"] by auto
    with row assms(1) show "\<forall>c \<in> set r. c \<noteq> Some []" by (auto simp: tags_ok_def)
  qed
qed

lemma lockCols_tags:
  "tags_ok b \<Longrightarrow> c \<noteq> [] \<Longrightarrow> lockCols b p c row col cs = Inr b' \<Longrightarrow> tags_ok b'"
proof (induction cs arbitrary: b col)
  case Nil
  then show ?case by simp
next
  case (Cons v vs)
  show ?case
  proof (cases "v \<noteq> 0 \<and> py p + row \<ge> 0 \<and> py p + row < int ROWS \<and> px p + col \<ge> 0 \<and> px p + col < int COLS")
    case True
    with Cons.prems(3) obtain b1
      where s: "setCell b (py p + row) (px p + col) (Some c) = Inr b1"
        and l: "lockCols b1 p c row (col + 1) vs = Inr b'"
      by (auto simp: Let_def split: sum.splits)
    have "Some c \<noteq> Some []" using Cons.prems(2) by simp
    with Cons.prems(1) have "tags_ok b1" using s by (rule setCell_tags)
    from this Cons.prems(2) l show ?thesis by (rule Cons.IH)
  next
    case False
    with Cons.prems(3) have "lockCols b p c row (col + 1) vs = Inr b'"
      by (auto simp: Let_def split: if_splits)
    with Cons.prems(1,2) show ?thesis by (rule Cons.IH)
  qed
qed

lemma lockRows_tags:
  "tags_ok b \<Longrightarrow> c \<noteq> [] \<Longrightarrow> lockRows b p c row sh = Inr b' \<Longrightarrow> tags_ok b'"
proof (induction sh arbitrary: b row)
  case Nil
  then show ?case by simp
next
  case (Cons r rs)
  from Cons.prems(3) obtain b1 where c: "lockCols b p c row 0 r = Inr b1"
    and l: "lockRows b1 p c (row + 1) rs = Inr b'"
    by (auto split: sum.splits)
  from Cons.prems(1,2) c have "tags_ok b1" by (rule lockCols_tags)
  from this Cons.prems(2) l show ?case by (rule Cons.IH)
qed

lemma removeLines_tags: "tags_ok b \<Longrightarrow> tags_ok (removeLines b linesToClear)"
proof (induction linesToClear arbitrary: b)
  case Nil
  then show ?case by simp
next
  case (Cons row rows)
  from Cons.prems have "tags_ok (replicate COLS None # splice1 b row)"
    by (auto simp: tags_ok_def splice1_def dest: in_set_takeD in_set_dropD)
  then show ?case by (simp add: Cons.IH)
qed

lemma clearLines_tags:
  assumes "tags_ok (board g)" and "clearLines g = Inr g'"
  shows "tags_ok (board g')"
  using assms
  by (auto simp: clearLines_def Let_def removeLines_tags split: sum.splits if_splits
      simp del: removeLines.simps)

section \<open>The invariant of the game\<close>

lemma bagNext_inv:
  assumes "mset (nextBag b) = mset pieces" and "random_ok rs"
  shows "\<exists>t b' rs'. bagNext b rs = (Some t, b', rs') \<and> mset (nextBag b') = mset pieces \<and> random_ok rs'"
proof (cases "bag b = []")
  case True
  from assms(1) have "length (nextBag b) = length pieces" by (rule mset_eq_length)
  then have "nextBag b \<noteq> []" by (auto simp: pieces_def)
  with True assms(2) show ?thesis
    by (simp add: bagNext_empty pop_def shuffleArray_perm)
next
  case False
  with assms show ?thesis by (simp add: bagNext_nonempty)
qed

lemma game_inv_score [simp]: "game_inv (g\<lparr>score := s\<rparr>) = game_inv g"
  by (simp add: game_inv_def)

lemma game_inv_state [simp]: "game_inv (g\<lparr>state := s\<rparr>) = game_inv g"
  by (simp add: game_inv_def)

lemma spawnPiece_effect:
  assumes "game_inv g"
  shows "\<exists>g'. spawnPiece g = Inr g' \<and> game_inv g' \<and> board g' = board g \<and> score g' = score g \<and>
              level g' = level g \<and> lines g' = lines g \<and> dropInterval g' = dropInterval g"
proof -
  from assms obtain t where t: "nextPiece g = Some t" by (auto simp: game_inv_def)
  from assms obtain n b1 rs1 where nx: "bagNext (gameBag g) (rnd g) = (Some n, b1, rs1)"
    and b1: "mset (nextBag b1) = mset pieces" and rs1: "random_ok rs1"
    using bagNext_inv [of "gameBag g" "rnd g"] by (auto simp: game_inv_def)
  from assms have "board_ok (board g)" by (simp add: game_inv_def)
  then obtain ok where ok: "isValidPosition (board g) t ((int COLS - 4) div 2) 0 0 = Inr ok"
    using isValidPosition_Inr [of "board g" 0] by blast
  from assms t nx b1 rs1 ok show ?thesis
    by (cases ok) (simp_all add: spawnPiece_def Let_def gameOver_def game_inv_def)
qed

lemma clearLines_inv:
  assumes "game_inv g"
  shows "\<exists>g'. clearLines g = Inr g' \<and> game_inv g' \<and>
              score g' = score g + lineScoreOf (length (filter fullRow (board g))) * level g"
proof -
  from assms have "board_ok (board g)" by (simp add: game_inv_def)
  from clearLines_effect [OF this] obtain g' where g': "clearLines g = Inr g'"
    and e: "board_ok (board g')"
      "score g' = score g + lineScoreOf (length (filter fullRow (board g))) * level g"
      "lines g' = lines g + int (length (filter fullRow (board g)))"
      "level g' = (if lines g' div 10 + 1 > level g \<and> length (filter fullRow (board g)) \<noteq> 0
                   then lines g' div 10 + 1 else level g)"
      "dropInterval g' =
         (if lines g' div 10 + 1 > level g \<and> length (filter fullRow (board g)) \<noteq> 0
          then max MIN_SPEED (BASE_SPEED - (level g' - 1) * SPEED_DECREASE_PER_LEVEL)
          else dropInterval g)"
      "currentPiece g' = currentPiece g" "gameBag g' = gameBag g"
      "nextPiece g' = nextPiece g" "rnd g' = rnd g"
    by blast
  from assms have lv: "level g = lines g div 10 + 1" and di: "MIN_SPEED \<le> dropInterval g"
    by (simp_all add: game_inv_def)
  have "lines g div 10 \<le> lines g' div 10"
    using e(3) by (intro zdiv_mono1) simp_all
  with lv e(3,4) have lv': "level g' = lines g' div 10 + 1"
    by (cases "length (filter fullRow (board g)) = 0") auto
  from di e(5) have di': "MIN_SPEED \<le> dropInterval g'" by simp
  from assms have "tags_ok (board g)" by (simp add: game_inv_def)
  from this g' have tg: "tags_ok (board g')" by (rule clearLines_tags)
  from assms have "nextPiece g \<noteq> None" "mset (nextBag (gameBag g)) = mset pieces" "random_ok (rnd g)"
    "case currentPiece g of None \<Rightarrow> True | Some p \<Rightarrow> 0 \<le> rotation p \<and> rotation p < 4"
    by (simp_all add: game_inv_def)
  with e(1,6,7,8,9) tg lv' di' have "game_inv g'" by (simp add: game_inv_def)
  with g' e(2) show ?thesis by blast
qed

lemma lockPiece_inv:
  assumes "game_inv g"
  shows "\<exists>g'. lockPiece g = Inr g' \<and> game_inv g'"
proof (cases "currentPiece g")
  case None
  with assms show ?thesis by (simp add: lockPiece_def)
next
  case (Some p)
  with assms have r: "0 \<le> rotation p" by (simp add: game_inv_def)
  from assms have "board_ok (board g)" by (simp add: game_inv_def)
  then obtain b1 where b1: "lockRows (board g) p (color (ptype p)) 0 (shapes (ptype p) ! nat (rotation p mod 4)) = Inr b1"
    and ok1: "board_ok b1"
    using lockRows_board_ok by blast
  from assms have "tags_ok (board g)" by (simp add: game_inv_def)
  from this color_nonempty b1 have "tags_ok b1" by (rule lockRows_tags)
  with assms ok1 have "game_inv (g\<lparr>board := b1\<rparr>)" by (simp add: game_inv_def)
  then obtain g1 where g1: "clearLines (g\<lparr>board := b1\<rparr>) = Inr g1" and i1: "game_inv g1"
    using clearLines_inv by blast
  from spawnPiece_effect [OF i1] obtain g2 where "spawnPiece g1 = Inr g2" "game_inv g2" by blast
  with Some r b1 g1 show ?thesis
    by (simp add: lockPiece_def getRotatedShape_nonneg)
qed

lemma movePiece_inv:
  assumes "game_inv g"
  shows "\<exists>ok g'. movePiece g dx dy = Inr (ok, g') \<and> game_inv g' \<and> score g' = score g"
proof (cases "currentPiece g")
  case None
  with assms show ?thesis by (auto simp: movePiece_def)
next
  case (Some p)
  with assms have "board_ok (board g)" "0 \<le> rotation p" by (simp_all add: game_inv_def)
  then obtain ok
    where "isValidPosition (board g) (ptype p) (px p + dx) (py p + dy) (rotation p) = Inr ok"
    using isValidPosition_Inr by blast
  with assms Some show ?thesis
    by (cases ok) (auto simp: movePiece_def Let_def game_inv_def)
qed


lemma tryKicks_inv:
  assumes "game_inv g" and "currentPiece g = Some p" and "0 \<le> target" "target < 4"
  shows "\<exists>g'. tryKicks g p target kicks = Inr g' \<and> game_inv g'"
proof -
  from assms(1) have b: "board_ok (board g)" by (simp add: game_inv_def)
  show ?thesis
    unfolding tryKicks_find [OF b assms(3)]
    using assms by (auto simp: game_inv_def split: option.splits)
qed

lemma rotatePiece_inv:
  assumes "game_inv g"
  shows "\<exists>g'. rotatePiece g = Inr g' \<and> game_inv g'"
proof (cases "currentPiece g")
  case None
  with assms show ?thesis by (simp add: rotatePiece_def)
next
  case (Some p)
  with assms have r: "0 \<le> rotation p" by (simp add: game_inv_def)
  then have t: "jsRem (rotation p + 1) 4 = (rotation p + 1) mod 4"
    by (intro jsRem_nonneg) simp
  have "0 \<le> (rotation p + 1) mod 4" "(rotation p + 1) mod 4 < 4" by simp_all
  from tryKicks_inv [OF assms Some this] Some t show ?thesis
    by (simp add: rotatePiece_def Let_def)
qed

lemma softDrop_inv:
  assumes "game_inv g"
  shows "\<exists>g'. softDrop g = Inr g' \<and> game_inv g'"
proof -
  from movePiece_inv [OF assms, of 0 1] obtain ok g1
    where "movePiece g 0 1 = Inr (ok, g1)" "game_inv g1" by blast
  then show ?thesis by (simp add: softDrop_def)
qed

lemma currentPiece_same: "currentPiece g = Some p \<Longrightarrow> g\<lparr>currentPiece := Some p\<rparr> = g"
  by (cases g) simp

text \<open>
  The drop loop: from a piece \<open>p\<close> it makes \<open>n\<close> steps, where the \<open>n\<close> positions below
  \<open>p\<close> are valid and the next one is not, adds \<open>n\<close> to the counter and leaves the piece
  \<open>n\<close> rows lower.
\<close>

lemma dropLoop_char:
  "board_ok (board g) \<Longrightarrow> currentPiece g = Some p \<Longrightarrow> 0 \<le> rotation p \<Longrightarrow>
   \<exists>n. dropLoop g d = Inr (d + int n, g\<lparr>currentPiece := Some (p\<lparr>py := py p + int n\<rparr>)\<rparr>) \<and>
       (\<forall>k. 1 \<le> k \<and> k \<le> n \<longrightarrow>
            isValidPosition (board g) (ptype p) (px p) (py p + int k) (rotation p) = Inr True) \<and>
       isValidPosition (board g) (ptype p) (px p) (py p + int n + 1) (rotation p) = Inr False"
proof (induction g d arbitrary: p rule: dropLoop.induct)
  case (1 g d)
  from "1.prems"(1,3) obtain ok
    where ok: "isValidPosition (board g) (ptype p) (px p) (py p + 1) (rotation p) = Inr ok"
    using isValidPosition_Inr by blast
  show ?case
  proof (cases ok)
    case False
    with ok "1.prems"(2) have "movePiece g 0 1 = Inr (False, g)"
      by (simp add: movePiece_def)
    then have "dropLoop g d = Inr (d, g)"
      by (subst dropLoop.simps) simp
    moreover have "g\<lparr>currentPiece := Some (p\<lparr>py := py p + int 0\<rparr>)\<rparr> = g"
      using "1.prems"(2) by (simp add: currentPiece_same)
    ultimately show ?thesis using ok False
      by (intro exI [of _ 0]) simp
  next
    case True
    let ?p1 = "p\<lparr>py := py p + 1\<rparr>"
    let ?g1 = "g\<lparr>currentPiece := Some ?p1\<rparr>"
    from ok True "1.prems"(2) have m: "movePiece g 0 1 = Inr (True, ?g1)"
      by (simp add: movePiece_def)
    have "\<exists>n. dropLoop (snd (True, ?g1)) (d + 1) =
              Inr (d + 1 + int n, (snd (True, ?g1))\<lparr>currentPiece := Some (?p1\<lparr>py := py ?p1 + int n\<rparr>)\<rparr>) \<and>
            (\<forall>k. 1 \<le> k \<and> k \<le> n \<longrightarrow>
               isValidPosition (board (snd (True, ?g1))) (ptype ?p1) (px ?p1) (py ?p1 + int k) (rotation ?p1) = Inr True) \<and>
            isValidPosition (board (snd (True, ?g1))) (ptype ?p1) (px ?p1) (py ?p1 + int n + 1) (rotation ?p1) = Inr False"
      using "1.prems" by (intro "1.IH" [OF m]) simp_all
    then obtain n where n: "dropLoop ?g1 (d + 1) = Inr (d + 1 + int n, ?g1\<lparr>currentPiece := Some (?p1\<lparr>py := py ?p1 + int n\<rparr>)\<rparr>)"
      and below: "\<forall>k. 1 \<le> k \<and> k \<le> n \<longrightarrow>
               isValidPosition (board g) (ptype p) (px p) (py p + 1 + int k) (rotation p) = Inr True"
      and stop: "isValidPosition (board g) (ptype p) (px p) (py p + 1 + int n + 1) (rotation p) = Inr False"
      by auto
    have "dropLoop g d = dropLoop ?g1 (d + 1)"
      using m by (subst dropLoop.simps) simp
    with n have res: "dropLoop g d = Inr (d + int (Suc n), g\<lparr>currentPiece := Some (p\<lparr>py := py p + int (Suc n)\<rparr>)\<rparr>)"
      by (simp add: add.assoc add.commute)
    have all: "\<forall>k. 1 \<le> k \<and> k \<le> Suc n \<longrightarrow>
               isValidPosition (board g) (ptype p) (px p) (py p + int k) (rotation p) = Inr True"
    proof (intro allI impI)
      fix k assume k: "1 \<le> k \<and> k \<le> Suc n"
      show "isValidPosition (board g) (ptype p) (px p) (py p + int k) (rotation p) = Inr True"
      proof (cases "k = 1")
        case True
        with ok \<open>ok\<close> show ?thesis by simp
      next
        case False
        with k have "1 \<le> k - 1 \<and> k - 1 \<le> n" by auto
        with below have "isValidPosition (board g) (ptype p) (px p) (py p + 1 + int (k - 1)) (rotation p) = Inr True"
          by blast
        moreover from k have "py p + 1 + int (k - 1) = py p + int k" by auto
        ultimately show ?thesis by simp
      qed
    qed
    from stop have "isValidPosition (board g) (ptype p) (px p) (py p + int (Suc n) + 1) (rotation p) = Inr False"
      by (simp add: add.assoc add.commute)
    with res all show ?thesis by blast
  qed
qed


lemma hardDrop_inv:
  assumes "game_inv g"
  shows "\<exists>g'. hardDrop g = Inr g' \<and> game_inv g'"
proof (cases "currentPiece g")
  case None
  with assms show ?thesis by (simp add: hardDrop_def)
next
  case (Some p)
  with assms have b: "board_ok (board g)" and r: "0 \<le> rotation p" by (simp_all add: game_inv_def)
  from dropLoop_char [OF b Some r, of 0] obtain n
    where n: "dropLoop g 0 = Inr (int n, g\<lparr>currentPiece := Some (p\<lparr>py := py p + int n\<rparr>)\<rparr>)"
    by auto
  let ?g1 = "g\<lparr>currentPiece := Some (p\<lparr>py := py p + int n\<rparr>)\<rparr>"
  from assms Some have "game_inv (?g1\<lparr>score := score ?g1 + int n * 2\<rparr>)"
    by (simp add: game_inv_def)
  from lockPiece_inv [OF this] Some n show ?thesis
    by (simp add: hardDrop_def)
qed

lemma autoDrop_inv:
  assumes "game_inv g"
  shows "\<exists>g'. autoDrop g = Inr g' \<and> game_inv g'"
proof -
  from movePiece_inv [OF assms, of 0 1] obtain ok g1
    where m: "movePiece g 0 1 = Inr (ok, g1)" and i: "game_inv g1" by blast
  from lockPiece_inv [OF i] m i show ?thesis
    by (cases ok) (simp_all add: autoDrop_def)
qed

lemma MIN_SPEED_le_BASE_SPEED: "MIN_SPEED \<le> BASE_SPEED"
  by (simp add: MIN_SPEED_def BASE_SPEED_def)

lemma newGame_inv:
  assumes "random_ok rs"
  shows "game_inv (newGame rs)"
proof -
  from assms have "mset (nextBag (fst (newBag rs))) = mset pieces" "random_ok (snd (newBag rs))"
    by (simp_all add: newBag_def bagReset_perm)
  from bagNext_inv [OF this] obtain t b1 rs2
    where "bagNext (fst (newBag rs)) (snd (newBag rs)) = (Some t, b1, rs2)"
      "mset (nextBag b1) = mset pieces" "random_ok rs2"
    by blast
  then show ?thesis
    by (simp add: newGame_def split_beta game_inv_def board_ok_createEmptyBoard
          tags_ok_createEmptyBoard MIN_SPEED_le_BASE_SPEED)
qed

lemma startGame_inv:
  assumes "random_ok (rnd g)"
  shows "\<exists>g'. startGame g = Inr g' \<and> game_inv g'"
proof -
  let ?r = "bagReset (gameBag g) (rnd g)"
  from assms have "mset (nextBag (fst ?r)) = mset pieces" "random_ok (snd ?r)"
    by (simp_all add: bagReset_perm)
  from bagNext_inv [OF this] obtain t b1 rs2
    where nx: "bagNext (fst ?r) (snd ?r) = (Some t, b1, rs2)"
      and b1: "mset (nextBag b1) = mset pieces" and rs2: "random_ok rs2"
    by blast
  let ?g1 = "g\<lparr>board := createEmptyBoard, gameBag := b1, rnd := rs2, nextPiece := Some t,
                 currentPiece := None, score := 0, level := 1, lines := 0,
                 dropInterval := BASE_SPEED\<rparr>"
  from b1 rs2 have "game_inv ?g1"
    by (simp add: game_inv_def board_ok_createEmptyBoard tags_ok_createEmptyBoard
          MIN_SPEED_le_BASE_SPEED)
  from spawnPiece_effect [OF this] obtain g2 where "spawnPiece ?g1 = Inr g2" "game_inv g2"
    by blast
  with nx show ?thesis
    by (simp add: startGame_def split_beta)
qed

lemma gameReachable_inv: "gameReachable g \<Longrightarrow> game_inv g"
proof (induction rule: gameReachable.induct)
  case (constructed rs)
  then show ?case by (rule newGame_inv)
next
  case (started g g')
  then have "random_ok (rnd g)" by (simp add: game_inv_def)
  from startGame_inv [OF this] started.hyps(2) show ?case by auto
next
  case (moved g dx dy ok g')
  from movePiece_inv [OF moved.IH, of dx dy] moved.hyps(2) show ?case by auto
next
  case (rotated g g')
  from rotatePiece_inv [OF rotated.IH] rotated.hyps(2) show ?case by auto
next
  case (softDropped g g')
  from softDrop_inv [OF softDropped.IH] softDropped.hyps(2) show ?case by auto
next
  case (hardDropped g g')
  from hardDrop_inv [OF hardDropped.IH] hardDropped.hyps(2) show ?case by auto
next
  case (autoDropped g g')
  from autoDrop_inv [OF autoDropped.IH] autoDropped.hyps(2) show ?case by auto
next
  case (paused g)
  then show ?case by (simp add: togglePause_def)
qed

lemma gameReachable_tags: "gameReachable g \<Longrightarrow> tags_ok (board g)"
  using gameReachable_inv [of g] by (simp add: game_inv_def)


lemma board_ok_boardThreeFull: "board_ok boardThreeFull"
  by (simp add: board_ok_def board_eval list_all_iff)

lemma board_ok_boardFourFull: "board_ok boardFourFull"
  by (simp add: board_ok_def boardFourFull_def board_eval list_all_iff)

lemma random_ok_zero: "random_ok (\<lambda>n. 0)"
  by (simp add: random_ok_def)

section \<open>Board dimensions\<close>

text \<open>
  C10: the board is created with \<open>ROWS = 20\<close> rows of \<open>COLS = 10\<close> cells; locking a
  piece returns a board of the same dimensions (it writes inside the grid only);
  removing a row and putting an empty row on top keeps them, and so does
  \<open>clearLines\<close>; hence every reachable game has a board of 20 rows of 10 cells.
\<close>

theorem board_dimensions_preserved:
  "board_ok createEmptyBoard \<and>
   (board_ok b \<longrightarrow> length b = 20 \<and> (\<forall>r \<in> set b. length r = 10)) \<and>
   (board_ok b \<longrightarrow> (\<exists>b'. lockRows b p c 0 sh = Inr b' \<and> board_ok b')) \<and>
   (board_ok b \<and> row < ROWS \<longrightarrow> board_ok (replicate COLS None # splice1 b row)) \<and>
   (board_ok (board g) \<longrightarrow> (\<exists>g'. clearLines g = Inr g' \<and> board_ok (board g'))) \<and>
   (gameReachable h \<longrightarrow> board_ok (board h))"
proof (intro conjI impI)
  show "board_ok createEmptyBoard" by (rule board_ok_createEmptyBoard)
next
  assume "board_ok b"
  then show "length b = 20" by (simp add: board_ok_def ROWS_def)
next
  assume "board_ok b"
  then show "\<forall>r \<in> set b. length r = 10" by (simp add: board_ok_def COLS_def list_all_iff)
next
  assume "board_ok b"
  then show "\<exists>b'. lockRows b p c 0 sh = Inr b' \<and> board_ok b'" by (rule lockRows_board_ok)
next
  assume "board_ok b \<and> row < ROWS"
  then show "board_ok (replicate COLS None # splice1 b row)" by (simp add: board_ok_clear_one)
next
  assume "board_ok (board g)"
  from clearLines_effect [OF this] show "\<exists>g'. clearLines g = Inr g' \<and> board_ok (board g')"
    by blast
next
  assume "gameReachable h"
  then have "game_inv h" by (rule gameReachable_inv)
  then show "board_ok (board h)" by (simp add: game_inv_def)
qed

lemma clearLines_boardThreeFull:
  "clearLines (gameOn boardThreeFull None) =
     Inr ((gameOn boardThreeFull None)
            \<lparr>score := 500, lines := 3, board := replicate 18 emptyRow @ [rowColumns09, rowFull]\<rparr>)"
  by (simp add: clearLines_def gameOn_def findLines_boardThreeFull removeLines_boardThreeFull
        lineScoreOf_def SCORE_TABLE_def Let_def del: removeLines.simps)

theorem board_dimensions_preserved_witness:
  "board_ok boardBeforeLock \<and> (17::nat) < ROWS \<and> board_ok (board (gameOn boardThreeFull None)) \<and>
   gameReachable (newGame half) \<and>
   lockRows boardBeforeLock \<lparr>ptype = PieceI, px = 7, py = 16, rotation = 1\<rparr> (color PieceI) 0
     (shapes PieceI ! 1) = Inr boardThreeFull \<and>
   board_ok boardThreeFull \<and>
   board_ok (replicate COLS None # splice1 boardBeforeLock 17) \<and>
   length (replicate 18 emptyRow @ [rowColumns09, rowFull]) = 20 \<and>
   board_ok (replicate 18 emptyRow @ [rowColumns09, rowFull]) \<and>
   board_ok (board (newGame half))"
proof -
  note inst = board_dimensions_preserved [of boardBeforeLock "\<lparr>ptype = PieceI, px = 7, py = 16, rotation = 1\<rparr>"
      "color PieceI" "shapes PieceI ! 1" 17 "gameOn boardThreeFull None" "newGame half"]
  have h1: "board_ok boardBeforeLock" by (rule board_ok_boardBeforeLock)
  have h2: "(17::nat) < ROWS" by (simp add: ROWS_def)
  have h3: "board_ok (board (gameOn boardThreeFull None))" by (simp add: gameOn_def board_ok_boardThreeFull)
  have h4: "gameReachable (newGame half)" using random_ok_half by (rule gameReachable.constructed)
  from inst h1 have "\<exists>b'. lockRows boardBeforeLock \<lparr>ptype = PieceI, px = 7, py = 16, rotation = 1\<rparr> (color PieceI) 0
     (shapes PieceI ! 1) = Inr b' \<and> board_ok b'" by blast
  then have c1: "board_ok boardThreeFull" unfolding lockRows_boardBeforeLock by simp
  from inst h1 h2 have c2: "board_ok (replicate COLS None # splice1 boardBeforeLock 17)" by blast
  from inst h3 have "\<exists>g'. clearLines (gameOn boardThreeFull None) = Inr g' \<and> board_ok (board g')" by blast
  then have c3: "board_ok (replicate 18 emptyRow @ [rowColumns09, rowFull])"
    unfolding clearLines_boardThreeFull by auto
  from inst h4 have c4: "board_ok (board (newGame half))" by blast
  from h1 h2 h3 h4 c1 c2 c3 c4 lockRows_boardBeforeLock show ?thesis by simp
qed


section \<open>Level and speed\<close>

text \<open>
  C6: when the level agrees with the line count before \<open>clearLines\<close> (as it does in
  every reachable game), it agrees after: \<open>level = lines div 10 + 1\<close>. If the level
  went up, the drop interval is
  \<open>max MIN_SPEED (BASE_SPEED - (level - 1) * SPEED_DECREASE_PER_LEVEL)\<close> for the new
  level; if not, it is unchanged. Either way it stays at or above \<open>MIN_SPEED\<close>, and in
  every reachable game it is at or above \<open>MIN_SPEED\<close>.
\<close>

theorem level_and_speed_after_clear:
  "(board_ok (board g) \<and> level g = lines g div 10 + 1 \<longrightarrow>
      (\<exists>g'. clearLines g = Inr g' \<and>
            level g' = lines g' div 10 + 1 \<and>
            (level g < level g' \<longrightarrow>
               dropInterval g' = max MIN_SPEED (BASE_SPEED - (level g' - 1) * SPEED_DECREASE_PER_LEVEL)) \<and>
            (level g' = level g \<longrightarrow> dropInterval g' = dropInterval g) \<and>
            (MIN_SPEED \<le> dropInterval g \<longrightarrow> MIN_SPEED \<le> dropInterval g'))) \<and>
   (gameReachable h \<longrightarrow> level h = lines h div 10 + 1 \<and> MIN_SPEED \<le> dropInterval h)"
proof (intro conjI impI)
  assume a: "board_ok (board g) \<and> level g = lines g div 10 + 1"
  let ?n = "length (filter fullRow (board g))"
  from a clearLines_effect [of g] obtain g' where g': "clearLines g = Inr g'"
    and l: "lines g' = lines g + int ?n"
    and lv: "level g' = (if lines g' div 10 + 1 > level g \<and> ?n \<noteq> 0 then lines g' div 10 + 1 else level g)"
    and di: "dropInterval g' =
         (if lines g' div 10 + 1 > level g \<and> ?n \<noteq> 0
          then max MIN_SPEED (BASE_SPEED - (level g' - 1) * SPEED_DECREASE_PER_LEVEL)
          else dropInterval g)"
    by blast
  have "lines g div 10 \<le> lines g' div 10"
    using l by (intro zdiv_mono1) simp_all
  with a l lv have lv': "level g' = lines g' div 10 + 1"
    by (cases "?n = 0") auto
  from lv di have up: "level g < level g' \<longrightarrow>
      dropInterval g' = max MIN_SPEED (BASE_SPEED - (level g' - 1) * SPEED_DECREASE_PER_LEVEL)"
    by (auto split: if_splits)
  from lv di have same: "level g' = level g \<longrightarrow> dropInterval g' = dropInterval g"
    by (auto split: if_splits)
  from di have floor: "MIN_SPEED \<le> dropInterval g \<longrightarrow> MIN_SPEED \<le> dropInterval g'"
    by simp
  from g' lv' up same floor
  show "\<exists>g'. clearLines g = Inr g' \<and>
            level g' = lines g' div 10 + 1 \<and>
            (level g < level g' \<longrightarrow>
               dropInterval g' = max MIN_SPEED (BASE_SPEED - (level g' - 1) * SPEED_DECREASE_PER_LEVEL)) \<and>
            (level g' = level g \<longrightarrow> dropInterval g' = dropInterval g) \<and>
            (MIN_SPEED \<le> dropInterval g \<longrightarrow> MIN_SPEED \<le> dropInterval g')"
    by blast
next
  assume "gameReachable h"
  then have "game_inv h" by (rule gameReachable_inv)
  then show "level h = lines h div 10 + 1" "MIN_SPEED \<le> dropInterval h"
    by (simp_all add: game_inv_def)
qed

lemma clearLines_level_up:
  "clearLines ((gameOn boardThreeFull None)\<lparr>lines := 9\<rparr>) =
     Inr ((gameOn boardThreeFull None)
            \<lparr>score := 500, lines := 12, board := replicate 18 emptyRow @ [rowColumns09, rowFull],
               level := 2, dropInterval := 925\<rparr>)"
  by (simp add: clearLines_def gameOn_def findLines_boardThreeFull removeLines_boardThreeFull
        lineScoreOf_def SCORE_TABLE_def Let_def MIN_SPEED_def BASE_SPEED_def
        SPEED_DECREASE_PER_LEVEL_def del: removeLines.simps)

theorem level_and_speed_after_clear_witness:
  "board_ok (board ((gameOn boardThreeFull None)\<lparr>lines := 9\<rparr>)) \<and>
   level ((gameOn boardThreeFull None)\<lparr>lines := 9\<rparr>) = lines ((gameOn boardThreeFull None)\<lparr>lines := 9\<rparr>) div 10 + 1 \<and>
   (\<exists>g'. clearLines ((gameOn boardThreeFull None)\<lparr>lines := 9\<rparr>) = Inr g' \<and>
         lines g' = 12 \<and> level g' = 2 \<and> level g' = lines g' div 10 + 1 \<and>
         dropInterval g' = 925 \<and>
         dropInterval g' = max MIN_SPEED (BASE_SPEED - (level g' - 1) * SPEED_DECREASE_PER_LEVEL)) \<and>
   MIN_SPEED \<le> dropInterval (gameOn boardThreeFull None) \<and>
   (\<exists>g'. clearLines (gameOn boardThreeFull None) = Inr g' \<and>
         lines g' = 3 \<and> level g' = 1 \<and> dropInterval g' = dropInterval (gameOn boardThreeFull None) \<and>
         MIN_SPEED \<le> dropInterval g') \<and>
   gameReachable (newGame half) \<and>
   level (newGame half) = lines (newGame half) div 10 + 1 \<and> MIN_SPEED \<le> dropInterval (newGame half)"
proof -
  let ?g = "(gameOn boardThreeFull None)\<lparr>lines := 9\<rparr>"
  let ?k = "gameOn boardThreeFull None"
  have k1: "board_ok (board ?k)" by (simp add: gameOn_def board_ok_boardThreeFull)
  have k2: "level ?k = lines ?k div 10 + 1" by (simp add: gameOn_def)
  have k3: "MIN_SPEED \<le> dropInterval ?k" by (simp add: gameOn_def MIN_SPEED_le_BASE_SPEED)
  from level_and_speed_after_clear [of ?k "newGame half"] k1 k2 obtain k'
    where k': "clearLines ?k = Inr k'"
      and same: "level k' = level ?k \<longrightarrow> dropInterval k' = dropInterval ?k"
      and floor: "MIN_SPEED \<le> dropInterval ?k \<longrightarrow> MIN_SPEED \<le> dropInterval k'"
    by blast
  from k' have "k' = ?k\<lparr>score := 500, lines := 3, board := replicate 18 emptyRow @ [rowColumns09, rowFull]\<rparr>"
    unfolding clearLines_boardThreeFull by simp
  then have kv: "lines k' = 3" "level k' = 1" "level k' = level ?k"
    by (simp_all add: gameOn_def)
  with same floor k3 have "dropInterval k' = dropInterval ?k" "MIN_SPEED \<le> dropInterval k'"
    by blast+
  with k' kv have stay: "\<exists>g'. clearLines ?k = Inr g' \<and>
         lines g' = 3 \<and> level g' = 1 \<and> dropInterval g' = dropInterval ?k \<and>
         MIN_SPEED \<le> dropInterval g'"
    by blast
  note inst = level_and_speed_after_clear [of ?g "newGame half"]
  have h1: "board_ok (board ?g)" by (simp add: gameOn_def board_ok_boardThreeFull)
  have h2: "level ?g = lines ?g div 10 + 1" by (simp add: gameOn_def)
  have h3: "gameReachable (newGame half)" using random_ok_half by (rule gameReachable.constructed)
  from inst h1 h2 obtain g' where g': "clearLines ?g = Inr g'"
    and lv: "level g' = lines g' div 10 + 1"
    and up: "level ?g < level g' \<longrightarrow>
               dropInterval g' = max MIN_SPEED (BASE_SPEED - (level g' - 1) * SPEED_DECREASE_PER_LEVEL)"
    by blast
  from g' have eq: "g' = (gameOn boardThreeFull None)
            \<lparr>score := 500, lines := 12, board := replicate 18 emptyRow @ [rowColumns09, rowFull],
               level := 2, dropInterval := 925\<rparr>"
    unfolding clearLines_level_up by simp
  then have vals: "lines g' = 12" "level g' = 2" "dropInterval g' = 925" "level ?g < level g'"
    by (simp_all add: gameOn_def)
  with up have "dropInterval g' = max MIN_SPEED (BASE_SPEED - (level g' - 1) * SPEED_DECREASE_PER_LEVEL)"
    by blast
  with g' lv vals have c: "\<exists>g'. clearLines ?g = Inr g' \<and>
         lines g' = 12 \<and> level g' = 2 \<and> level g' = lines g' div 10 + 1 \<and>
         dropInterval g' = 925 \<and>
         dropInterval g' = max MIN_SPEED (BASE_SPEED - (level g' - 1) * SPEED_DECREASE_PER_LEVEL)"
    by blast
  from inst h3 have d: "level (newGame half) = lines (newGame half) div 10 + 1"
    "MIN_SPEED \<le> dropInterval (newGame half)" by blast+
  from h1 h2 h3 c d k3 stay show ?thesis by blast
qed


section \<open>Scoring\<close>

lemma lineScoreOf_tableOfSpec: "lineScoreOf n = tableOfSpec n"
  by (simp add: lineScoreOf_def SCORE_TABLE_def tableOfSpec_def)

lemma softDrop_result:
  assumes "board_ok (board g)" and "currentPiece g = Some p" and "0 \<le> rotation p"
  shows "\<exists>ok. isValidPosition (board g) (ptype p) (px p) (py p + 1) (rotation p) = Inr ok \<and>
              softDrop g =
                Inr (if ok then g\<lparr>currentPiece := Some (p\<lparr>py := py p + 1\<rparr>), score := score g + 1\<rparr>
                     else g)"
proof -
  from assms(1,3) obtain ok
    where ok: "isValidPosition (board g) (ptype p) (px p) (py p + 1) (rotation p) = Inr ok"
    using isValidPosition_Inr by blast
  with assms(2) have "softDrop g =
      Inr (if ok then g\<lparr>currentPiece := Some (p\<lparr>py := py p + 1\<rparr>), score := score g + 1\<rparr> else g)"
    by (simp add: softDrop_def movePiece_def)
  with ok show ?thesis by blast
qed

lemma softDrops_result:
  "board_ok (board g) \<Longrightarrow> currentPiece g = Some p \<Longrightarrow> 0 \<le> rotation p \<Longrightarrow>
   \<forall>k. 1 \<le> k \<and> k \<le> n \<longrightarrow>
       isValidPosition (board g) (ptype p) (px p) (py p + int k) (rotation p) = Inr True \<Longrightarrow>
   softDrops n g =
     Inr (g\<lparr>currentPiece := Some (p\<lparr>py := py p + int n\<rparr>), score := score g + int n\<rparr>)"
proof (induction n arbitrary: g p)
  case 0
  then show ?case by (simp add: currentPiece_same)
next
  case (Suc n)
  let ?p1 = "p\<lparr>py := py p + 1\<rparr>"
  let ?g1 = "g\<lparr>currentPiece := Some ?p1, score := score g + 1\<rparr>"
  from Suc.prems(4) have "isValidPosition (board g) (ptype p) (px p) (py p + int 1) (rotation p) = Inr True"
    by (intro Suc.prems(4) [rule_format]) simp
  with Suc.prems(2) have first: "softDrop g = Inr ?g1"
    by (simp add: softDrop_def movePiece_def)
  have below: "\<forall>k. 1 \<le> k \<and> k \<le> n \<longrightarrow>
       isValidPosition (board ?g1) (ptype ?p1) (px ?p1) (py ?p1 + int k) (rotation ?p1) = Inr True"
  proof (intro allI impI)
    fix k assume "1 \<le> k \<and> k \<le> n"
    then have "1 \<le> Suc k \<and> Suc k \<le> Suc n" by simp
    with Suc.prems(4) have "isValidPosition (board g) (ptype p) (px p) (py p + int (Suc k)) (rotation p) = Inr True"
      by blast
    then show "isValidPosition (board ?g1) (ptype ?p1) (px ?p1) (py ?p1 + int k) (rotation ?p1) = Inr True"
      by (simp add: algebra_simps)
  qed
  have "softDrops n ?g1 =
      Inr (?g1\<lparr>currentPiece := Some (?p1\<lparr>py := py ?p1 + int n\<rparr>), score := score ?g1 + int n\<rparr>)"
    using Suc.prems(1,3) below by (intro Suc.IH) simp_all
  with first show ?case by (simp add: algebra_simps)
qed

lemma spawnPiece_score:
  assumes "board_ok (board g)" and "nextPiece g \<noteq> None"
  shows "\<exists>g'. spawnPiece g = Inr g' \<and> score g' = score g"
proof -
  from assms(2) obtain t where t: "nextPiece g = Some t" by auto
  from assms(1) obtain ok where "isValidPosition (board g) t ((int COLS - 4) div 2) 0 0 = Inr ok"
    using isValidPosition_Inr [of "board g" 0] by blast
  with t show ?thesis
    by (cases ok) (simp_all add: spawnPiece_def split_beta gameOver_def)
qed

lemma lockPiece_score:
  assumes "board_ok (board g)" and "currentPiece g = Some p" and "0 \<le> rotation p"
    and "nextPiece g \<noteq> None"
  shows "\<exists>b1 g'. lockRows (board g) p (color (ptype p)) 0 (shapes (ptype p) ! nat (rotation p mod 4)) = Inr b1 \<and>
           lockPiece g = Inr g' \<and>
           score g' = score g + tableOfSpec (length (filter fullRow b1)) * level g"
proof -
  from assms(1) obtain b1
    where b1: "lockRows (board g) p (color (ptype p)) 0 (shapes (ptype p) ! nat (rotation p mod 4)) = Inr b1"
      and ok1: "board_ok b1"
    using lockRows_board_ok by blast
  from ok1 have "board_ok (board (g\<lparr>board := b1\<rparr>))" by simp
  from clearLines_effect [OF this] obtain g1 where g1: "clearLines (g\<lparr>board := b1\<rparr>) = Inr g1"
    and e: "board_ok (board g1)" "score g1 = score g + lineScoreOf (length (filter fullRow b1)) * level g"
      "nextPiece g1 = nextPiece g"
    by auto
  from e(1,3) assms(4) obtain g2 where g2: "spawnPiece g1 = Inr g2" "score g2 = score g1"
    using spawnPiece_score [of g1] by auto
  from assms(2,3) b1 g1 g2 have "lockPiece g = Inr g2"
    by (simp add: lockPiece_def getRotatedShape_nonneg)
  with b1 g2 e(2) show ?thesis by (simp add: lineScoreOf_tableOfSpec)
qed


text \<open>
  C5: \<open>clearLines\<close> adds \<open>table(n) * level\<close> to the score, \<open>n\<close> being the number of full
  rows and \<open>level\<close> the level before the call. A \<open>softDrop\<close> whose step down is valid
  adds 1 and moves the piece one row; one whose step is not valid changes nothing; \<open>m\<close>
  soft drops over \<open>m\<close> valid rows add \<open>m\<close>. A \<open>hardDrop\<close> moves the piece down the \<open>n\<close>
  valid rows below it, adds \<open>2 * n\<close> and locks the piece; its whole effect on the
  score is \<open>2 * n\<close> plus what the line clear of that lock adds.
\<close>

theorem scoring_rules:
  "(board_ok (board g) \<longrightarrow>
      (\<exists>g'. clearLines g = Inr g' \<and>
            score g' = score g + tableOfSpec (length (filter fullRow (board g))) * level g)) \<and>
   (board_ok (board g) \<and> currentPiece g = Some p \<and> 0 \<le> rotation p \<longrightarrow>
      (\<exists>ok. isValidPosition (board g) (ptype p) (px p) (py p + 1) (rotation p) = Inr ok \<and>
            softDrop g =
              Inr (if ok then g\<lparr>currentPiece := Some (p\<lparr>py := py p + 1\<rparr>), score := score g + 1\<rparr>
                   else g)) \<and>
      ((\<forall>k. 1 \<le> k \<and> k \<le> m \<longrightarrow>
            isValidPosition (board g) (ptype p) (px p) (py p + int k) (rotation p) = Inr True) \<longrightarrow>
         softDrops m g =
           Inr (g\<lparr>currentPiece := Some (p\<lparr>py := py p + int m\<rparr>), score := score g + int m\<rparr>)) \<and>
      (\<exists>n. (\<forall>k. 1 \<le> k \<and> k \<le> n \<longrightarrow>
                isValidPosition (board g) (ptype p) (px p) (py p + int k) (rotation p) = Inr True) \<and>
           isValidPosition (board g) (ptype p) (px p) (py p + int n + 1) (rotation p) = Inr False \<and>
           hardDrop g =
             lockPiece (g\<lparr>currentPiece := Some (p\<lparr>py := py p + int n\<rparr>),
                          score := score g + int n * 2\<rparr>) \<and>
           (nextPiece g \<noteq> None \<longrightarrow>
              (\<exists>b1 g'. lockRows (board g) (p\<lparr>py := py p + int n\<rparr>) (color (ptype p)) 0
                           (shapes (ptype p) ! nat (rotation p mod 4)) = Inr b1 \<and>
                       hardDrop g = Inr g' \<and>
                       score g' =
                         score g + int n * 2 + tableOfSpec (length (filter fullRow b1)) * level g))))"
proof (intro conjI impI)
  assume "board_ok (board g)"
  from clearLines_effect [OF this] show "\<exists>g'. clearLines g = Inr g' \<and>
            score g' = score g + tableOfSpec (length (filter fullRow (board g))) * level g"
    by (auto simp: lineScoreOf_tableOfSpec)
next
  assume "board_ok (board g) \<and> currentPiece g = Some p \<and> 0 \<le> rotation p"
  then show "\<exists>ok. isValidPosition (board g) (ptype p) (px p) (py p + 1) (rotation p) = Inr ok \<and>
            softDrop g =
              Inr (if ok then g\<lparr>currentPiece := Some (p\<lparr>py := py p + 1\<rparr>), score := score g + 1\<rparr>
                   else g)"
    by (intro softDrop_result) simp_all
next
  assume "board_ok (board g) \<and> currentPiece g = Some p \<and> 0 \<le> rotation p"
    and "\<forall>k. 1 \<le> k \<and> k \<le> m \<longrightarrow>
            isValidPosition (board g) (ptype p) (px p) (py p + int k) (rotation p) = Inr True"
  then show "softDrops m g =
           Inr (g\<lparr>currentPiece := Some (p\<lparr>py := py p + int m\<rparr>), score := score g + int m\<rparr>)"
    by (intro softDrops_result) simp_all
next
  assume a: "board_ok (board g) \<and> currentPiece g = Some p \<and> 0 \<le> rotation p"
  then have b: "board_ok (board g)" and c: "currentPiece g = Some p" and r: "0 \<le> rotation p"
    by simp_all
  from dropLoop_char [OF b c r, of 0] obtain n
    where n: "dropLoop g 0 = Inr (int n, g\<lparr>currentPiece := Some (p\<lparr>py := py p + int n\<rparr>)\<rparr>)"
      and below: "\<forall>k. 1 \<le> k \<and> k \<le> n \<longrightarrow>
                isValidPosition (board g) (ptype p) (px p) (py p + int k) (rotation p) = Inr True"
      and stop: "isValidPosition (board g) (ptype p) (px p) (py p + int n + 1) (rotation p) = Inr False"
    by auto
  let ?gn = "g\<lparr>currentPiece := Some (p\<lparr>py := py p + int n\<rparr>), score := score g + int n * 2\<rparr>"
  from c n have hd: "hardDrop g = lockPiece ?gn"
    by (simp add: hardDrop_def)
  have total: "nextPiece g \<noteq> None \<longrightarrow>
              (\<exists>b1 g'. lockRows (board g) (p\<lparr>py := py p + int n\<rparr>) (color (ptype p)) 0
                           (shapes (ptype p) ! nat (rotation p mod 4)) = Inr b1 \<and>
                       hardDrop g = Inr g' \<and>
                       score g' =
                         score g + int n * 2 + tableOfSpec (length (filter fullRow b1)) * level g)"
  proof
    assume np: "nextPiece g \<noteq> None"
    from b r np lockPiece_score [of ?gn "p\<lparr>py := py p + int n\<rparr>"]
    show "\<exists>b1 g'. lockRows (board g) (p\<lparr>py := py p + int n\<rparr>) (color (ptype p)) 0
                           (shapes (ptype p) ! nat (rotation p mod 4)) = Inr b1 \<and>
                       hardDrop g = Inr g' \<and>
                       score g' =
                         score g + int n * 2 + tableOfSpec (length (filter fullRow b1)) * level g"
      unfolding hd by simp
  qed
  from below stop hd total
  show "\<exists>n. (\<forall>k. 1 \<le> k \<and> k \<le> n \<longrightarrow>
                isValidPosition (board g) (ptype p) (px p) (py p + int k) (rotation p) = Inr True) \<and>
           isValidPosition (board g) (ptype p) (px p) (py p + int n + 1) (rotation p) = Inr False \<and>
           hardDrop g =
             lockPiece (g\<lparr>currentPiece := Some (p\<lparr>py := py p + int n\<rparr>),
                          score := score g + int n * 2\<rparr>) \<and>
           (nextPiece g \<noteq> None \<longrightarrow>
              (\<exists>b1 g'. lockRows (board g) (p\<lparr>py := py p + int n\<rparr>) (color (ptype p)) 0
                           (shapes (ptype p) ! nat (rotation p mod 4)) = Inr b1 \<and>
                       hardDrop g = Inr g' \<and>
                       score g' =
                         score g + int n * 2 + tableOfSpec (length (filter fullRow b1)) * level g))"
    by blast
qed


lemmas game_eval =
  gameOn_def isValidPosition_def getRotatedShape_def arrayGet_def jsRem_def cellAt_def truthy_def
  board_eval nth_append

lemma count_full_boardFourFull: "length (filter fullRow boardFourFull) = 4"
  by (simp add: boardFourFull_def fullRow_def board_eval list_all_iff eval_nat_numeral)

lemma valid_T_descent:
  assumes "1 \<le> k \<and> k \<le> (12::nat)"
  shows "isValidPosition boardBeforeLock PieceT 0 (1 + int k) 0 = Inr True"
proof -
  from assms have "k = 1 \<or> k = 2 \<or> k = 3 \<or> k = 4 \<or> k = 5 \<or> k = 6 \<or>
                   k = 7 \<or> k = 8 \<or> k = 9 \<or> k = 10 \<or> k = 11 \<or> k = 12"
    by arith
  then show ?thesis
    by (elim disjE) (simp_all add: game_eval)
qed

lemma invalid_T_landed: "isValidPosition boardBeforeLock PieceT 0 14 0 = Inr False"
  by (simp add: game_eval)

lemma lockRows_T:
  "lockRows boardBeforeLock \<lparr>ptype = PieceT, px = 0, py = 13, rotation = 0\<rparr> (color PieceT) 0
     (shapes PieceT ! 0) = Inr boardWithT"
  by (simp add: setCell_def arrayGet_def board_eval boardWithT_def nth_append list_update_append
        eval_nat_numeral)

lemma count_full_boardWithT: "length (filter fullRow boardWithT) = 0"
  by (simp add: boardWithT_def fullRow_def board_eval list_all_iff eval_nat_numeral)

theorem scoring_rules_witness:
  "board_ok boardFourFull \<and>
   (\<exists>g'. clearLines ((gameOn boardFourFull None)\<lparr>level := 3, lines := 20\<rparr>) = Inr g' \<and> score g' = 2400) \<and>
   board_ok boardBeforeLock \<and>
   softDrop (gameOn boardBeforeLock (Some \<lparr>ptype = PieceT, px = 0, py = 1, rotation = 0\<rparr>)) =
     Inr ((gameOn boardBeforeLock (Some \<lparr>ptype = PieceT, px = 0, py = 2, rotation = 0\<rparr>))\<lparr>score := 1\<rparr>) \<and>
   softDrops 5 (gameOn boardBeforeLock (Some \<lparr>ptype = PieceT, px = 0, py = 1, rotation = 0\<rparr>)) =
     Inr ((gameOn boardBeforeLock (Some \<lparr>ptype = PieceT, px = 0, py = 6, rotation = 0\<rparr>))\<lparr>score := 5\<rparr>) \<and>
   (\<exists>g'. hardDrop (gameOn boardBeforeLock (Some \<lparr>ptype = PieceT, px = 0, py = 1, rotation = 0\<rparr>)) = Inr g' \<and>
         score g' = 24)"
proof -
  let ?p = "\<lparr>ptype = PieceT, px = 0, py = 1, rotation = 0\<rparr>"
  let ?g = "gameOn boardBeforeLock (Some ?p)"
  let ?h = "(gameOn boardFourFull None)\<lparr>level := 3, lines := 20\<rparr>"
  have hb: "board_ok (board ?h)" by (simp add: gameOn_def board_ok_boardFourFull)
  have gb: "board_ok (board ?g)" by (simp add: gameOn_def board_ok_boardBeforeLock)
  have hyp: "board_ok (board ?g) \<and> currentPiece ?g = Some ?p \<and> 0 \<le> rotation ?p"
    using gb by (simp add: gameOn_def)
  have valid: "\<And>k. 1 \<le> k \<and> k \<le> (12::nat) \<Longrightarrow>
      isValidPosition (board ?g) (ptype ?p) (px ?p) (py ?p + int k) (rotation ?p) = Inr True"
    using valid_T_descent by (simp add: gameOn_def)
  have stop: "isValidPosition (board ?g) (ptype ?p) (px ?p) (py ?p + int 13) (rotation ?p) = Inr False"
    using invalid_T_landed by (simp add: gameOn_def)
  \<comment> \<open>four lines at level 3\<close>
  from scoring_rules [of ?h ?p 0] hb
  have "\<exists>g'. clearLines ?h = Inr g' \<and>
            score g' = score ?h + tableOfSpec (length (filter fullRow (board ?h))) * level ?h"
    by blast
  then have a: "\<exists>g'. clearLines ?h = Inr g' \<and> score g' = 2400"
    by (simp add: gameOn_def count_full_boardFourFull tableOfSpec_def)
  \<comment> \<open>one soft drop, five soft drops\<close>
  from scoring_rules [of ?g ?p 1] hyp obtain ok
    where v1: "isValidPosition (board ?g) (ptype ?p) (px ?p) (py ?p + 1) (rotation ?p) = Inr ok"
      and s1: "softDrop ?g =
                 Inr (if ok then ?g\<lparr>currentPiece := Some (?p\<lparr>py := py ?p + 1\<rparr>), score := score ?g + 1\<rparr>
                      else ?g)"
    by blast
  from v1 valid [of 1] have "ok" by simp
  with s1 have b: "softDrop ?g = Inr ((gameOn boardBeforeLock (Some \<lparr>ptype = PieceT, px = 0, py = 2, rotation = 0\<rparr>))\<lparr>score := 1\<rparr>)"
    by (simp add: gameOn_def)
  have "\<forall>k. 1 \<le> k \<and> k \<le> (5::nat) \<longrightarrow>
      isValidPosition (board ?g) (ptype ?p) (px ?p) (py ?p + int k) (rotation ?p) = Inr True"
    using valid by simp
  with scoring_rules [of ?g ?p 5] hyp
  have "softDrops 5 ?g = Inr (?g\<lparr>currentPiece := Some (?p\<lparr>py := py ?p + int 5\<rparr>), score := score ?g + int 5\<rparr>)"
    by blast
  then have c: "softDrops 5 ?g =
      Inr ((gameOn boardBeforeLock (Some \<lparr>ptype = PieceT, px = 0, py = 6, rotation = 0\<rparr>))\<lparr>score := 5\<rparr>)"
    by (simp add: gameOn_def)
  \<comment> \<open>a hard drop of twelve rows\<close>
  from scoring_rules [of ?g ?p 0] hyp obtain n
    where below: "\<forall>k. 1 \<le> k \<and> k \<le> n \<longrightarrow>
                isValidPosition (board ?g) (ptype ?p) (px ?p) (py ?p + int k) (rotation ?p) = Inr True"
      and last: "isValidPosition (board ?g) (ptype ?p) (px ?p) (py ?p + int n + 1) (rotation ?p) = Inr False"
      and total: "nextPiece ?g \<noteq> None \<longrightarrow>
              (\<exists>b1 g'. lockRows (board ?g) (?p\<lparr>py := py ?p + int n\<rparr>) (color (ptype ?p)) 0
                           (shapes (ptype ?p) ! nat (rotation ?p mod 4)) = Inr b1 \<and>
                       hardDrop ?g = Inr g' \<and>
                       score g' =
                         score ?g + int n * 2 + tableOfSpec (length (filter fullRow b1)) * level ?g)"
    by blast
  have n: "n = 12"
  proof (rule ccontr)
    assume "n \<noteq> 12"
    then consider "n < 12" | "12 < n" by arith
    then show False
    proof cases
      case 1
      then have "1 \<le> Suc n \<and> Suc n \<le> 12" by simp
      from valid [OF this] last show False by (simp add: add.assoc add.commute)
    next
      case 2
      then have "1 \<le> (13::nat) \<and> 13 \<le> n" by simp
      with below have "isValidPosition (board ?g) (ptype ?p) (px ?p) (py ?p + int 13) (rotation ?p) = Inr True"
        by blast
      with stop show False by simp
    qed
  qed
  have np: "nextPiece ?g \<noteq> None" by (simp add: gameOn_def)
  with total obtain b1 g'
    where l: "lockRows (board ?g) (?p\<lparr>py := py ?p + int n\<rparr>) (color (ptype ?p)) 0
                (shapes (ptype ?p) ! nat (rotation ?p mod 4)) = Inr b1"
      and h: "hardDrop ?g = Inr g'"
      and s: "score g' = score ?g + int n * 2 + tableOfSpec (length (filter fullRow b1)) * level ?g"
    by blast
  have "lockRows (board ?g) (?p\<lparr>py := py ?p + int n\<rparr>) (color (ptype ?p)) 0
                (shapes (ptype ?p) ! nat (rotation ?p mod 4)) = Inr boardWithT"
    using lockRows_T by (simp add: n gameOn_def)
  with l have "b1 = boardWithT" by simp
  with s n have "score g' = 24"
    by (simp add: count_full_boardWithT tableOfSpec_def gameOn_def)
  with h have d: "\<exists>g'. hardDrop ?g = Inr g' \<and> score g' = 24" by blast
  from a b c d board_ok_boardFourFull board_ok_boardBeforeLock show ?thesis by blast
qed

end
